theory Spec2Isabelle
  imports Main "HOL-Library.Word"
begin

section \<open>Values shared by the registry and the format handlers\<close>

type_synonym bytes = "8 word list"

text \<open>
  JavaScript exceptions are values: \<open>Error msg\<close> is \<^verbatim>\<open>new Error(msg)\<close>, and
  \<open>RangeError\<close> is what a typed read or a typed-array view outside its buffer raises.
\<close>

datatype error = Error string | RangeError

text \<open>
  The \<^verbatim>\<open>content\<close> argument of \<^verbatim>\<open>findHandler\<close>: either a \<^verbatim>\<open>Uint8Array\<close> holding bytes,
  or some other value whose \<^verbatim>\<open>length\<close> property reads as \<^verbatim>\<open>undefined\<close> (a number, a
  plain object).
\<close>

datatype content = Uint8Array bytes | NoLength

fun content_length :: "content \<Rightarrow> nat option" where
  "content_length (Uint8Array b) = Some (length b)"
| "content_length NoLength = None"

text \<open>
  What an \<^verbatim>\<open>identify\<close> function hands back. The documented shape is an object
  \<^verbatim>\<open>{valid, reason}\<close> with \<^verbatim>\<open>valid\<close> one of \<^verbatim>\<open>true\<close>, \<^verbatim>\<open>false\<close>, \<^verbatim>\<open>undefined\<close>
  (\<open>Some True\<close>, \<open>Some False\<close>, \<open>None\<close>); a function may also return a bare
  JavaScript boolean. Reading a property of a boolean gives \<^verbatim>\<open>undefined\<close>.
\<close>

datatype confidence = Boolean bool | Confidence "bool option" string

fun valid :: "confidence \<Rightarrow> bool option" where
  "valid (Boolean b) = None"
| "valid (Confidence v r) = v"

fun reason :: "confidence \<Rightarrow> string option" where
  "reason (Boolean b) = None"
| "reason (Confidence v r) = Some r"

fun is_confidence_object :: "confidence \<Rightarrow> bool" where
  "is_confidence_object (Boolean b) = False"
| "is_confidence_object (Confidence v r) = True"

section \<open>The handler base class (archiveHandler.js)\<close>

text \<open>
  A handler as the registry sees it: the \<^verbatim>\<open>id\<close> of its \<^verbatim>\<open>metadata()\<close> and its static
  \<^verbatim>\<open>identify(content, filename)\<close>, which may return or raise.
\<close>

record ArchiveHandler =
  metadata_id :: string
  identify :: "bytes \<Rightarrow> string option \<Rightarrow> error + confidence"

definition ArchiveHandler_identify :: "bytes \<Rightarrow> string option \<Rightarrow> error + confidence" where
  "ArchiveHandler_identify content filename =
     Inr (Confidence (Some False)
       (''The identify() function has not been implemented by the format ''
        @ ''handler, so autodetecting this format is not possible.''))"

section \<open>The registry (index.js)\<close>

text \<open>
  The lines written through \<^verbatim>\<open>debug(...)\<close>. Every call of a handler's \<^verbatim>\<open>identify\<close> is
  followed by exactly one of \<open>Matched\<close>, \<open>Possible_match\<close>, \<open>Not_format\<close> carrying the
  handler's id and the reason read from the result, so the log lists the handlers that were
  consulted, in order.
\<close>

datatype debug_line =
  Autodetecting
| Matched string "string option"
| Possible_match string "string option"
| Not_format string "string option"

text \<open>
  The \<^verbatim>\<open>for (const x of fileTypes)\<close> loop of \<^verbatim>\<open>findHandler\<close>; \<open>handlers\<close> is the list
  accumulated so far and \<open>dbg\<close> the debug log. An exception of \<^verbatim>\<open>identify\<close> is not
  caught.
\<close>

fun findHandler_loop ::
  "ArchiveHandler list \<Rightarrow> bytes \<Rightarrow> string option \<Rightarrow> ArchiveHandler list \<Rightarrow> debug_line list
     \<Rightarrow> debug_line list \<times> (error + ArchiveHandler list)" where
  "findHandler_loop [] content filename handlers dbg = (dbg, Inr handlers)"
| "findHandler_loop (x # rest) content filename handlers dbg =
     (case identify x content filename of
        Inl e \<Rightarrow> (dbg, Inl e)
      | Inr confidence \<Rightarrow>
          if valid confidence = Some True then
            (dbg @ [Matched (metadata_id x) (reason confidence)], Inr [x])
          else if valid confidence = None then
            findHandler_loop rest content filename (handlers @ [x])
              (dbg @ [Possible_match (metadata_id x) (reason confidence)])
          else
            findHandler_loop rest content filename handlers
              (dbg @ [Not_format (metadata_id x) (reason confidence)]))"

text \<open>
  \<^verbatim>\<open>findHandler(content, filename)\<close>. The list \<open>fileTypes\<close> of registered handlers is
  built from modules outside this development and is a parameter here.
\<close>

definition findHandler ::
  "ArchiveHandler list \<Rightarrow> content \<Rightarrow> string option
     \<Rightarrow> debug_line list \<times> (error + ArchiveHandler list)" where
  "findHandler fileTypes content filename =
     (case content of
        NoLength \<Rightarrow> ([Autodetecting], Inl (Error ''content parameter must be Uint8Array''))
      | Uint8Array b \<Rightarrow> findHandler_loop fileTypes b filename [] [Autodetecting])"

text \<open>The handler ids named by the consultation lines of a debug log.\<close>

fun consulted :: "debug_line list \<Rightarrow> string list" where
  "consulted [] = []"
| "consulted (Autodetecting # ls) = consulted ls"
| "consulted (Matched i r # ls) = i # consulted ls"
| "consulted (Possible_match i r # ls) = i # consulted ls"
| "consulted (Not_format i r # ls) = i # consulted ls"

text \<open>The value of \<^verbatim>\<open>.valid\<close> that a handler reports on an input, or its exception.\<close>

definition verdict :: "ArchiveHandler \<Rightarrow> bytes \<Rightarrow> string option \<Rightarrow> error + bool option" where
  "verdict x content filename = map_sum id valid (identify x content filename)"

section \<open>The byte cursor\<close>

text \<open>
  Modelled from the spec: \<^verbatim>\<open>RecordBuffer\<close> and \<^verbatim>\<open>RecordType\<close> come from the package
  \<^verbatim>\<open>@malvineous/record-io-buffer\<close>, which is not among the sources. The spec describes a
  sequential reader over a byte buffer with typed fixed-width reads, relative seeks and a
  distance-to-end query; the record is 37 bytes: type code (unsigned little-endian, 2
  bytes), compressed size (2 bytes), filename (31 bytes, fixed width, required terminator
  byte), decompressed size (2 bytes). A read or a view that does not fit in the buffer
  raises; a seek may move the cursor past the end, and the distance to the end is then
  negative.
\<close>

record RecordBuffer =
  buffer :: bytes
  pos :: nat

definition distFromEnd :: "RecordBuffer \<Rightarrow> int" where
  "distFromEnd rb = int (length (buffer rb)) - int (pos rb)"

definition seekRel :: "RecordBuffer \<Rightarrow> nat \<Rightarrow> RecordBuffer" where
  "seekRel rb n = rb\<lparr>pos := pos rb + n\<rparr>"

definition getU8 :: "bytes \<Rightarrow> nat \<Rightarrow> nat \<Rightarrow> error + bytes" where
  "getU8 b off len =
     (if off + len \<le> length b then Inr (take len (drop off b)) else Inl RangeError)"

definition u16le :: "bytes \<Rightarrow> nat" where
  "u16le b = unat (b ! 0) + 256 * unat (b ! 1)"

text \<open>
  The string read from a fixed-width field with a terminator
  (\<^verbatim>\<open>RecordType.string.fixed.reqTerm\<close>): the characters before the first NUL byte, each
  byte read as the character of the same code.
\<close>

definition reqTerm :: "bytes \<Rightarrow> string" where
  "reqTerm field = map (\<lambda>b. char_of (unat b)) (takeWhile (\<lambda>b. b \<noteq> 0) field)"

record fatEntry =
  typeCode :: nat
  compressedSize :: nat
  name :: string
  decompressedSize :: nat

definition FATENTRY_LEN :: nat where
  "FATENTRY_LEN = 37"

definition MAX_FILES :: nat where
  "MAX_FILES = 1024"

definition decode_fatEntry :: "bytes \<Rightarrow> fatEntry" where
  "decode_fatEntry r =
     \<lparr>typeCode = u16le (take 2 r),
      compressedSize = u16le (take 2 (drop 2 r)),
      name = reqTerm (take 31 (drop 4 r)),
      decompressedSize = u16le (take 2 (drop 35 r))\<rparr>"

definition readRecord :: "RecordBuffer \<Rightarrow> error + fatEntry \<times> RecordBuffer" where
  "readRecord rb =
     (if pos rb + FATENTRY_LEN \<le> length (buffer rb) then
        Inr (decode_fatEntry (take FATENTRY_LEN (drop (pos rb) (buffer rb))),
             rb\<lparr>pos := pos rb + FATENTRY_LEN\<rparr>)
      else Inl RangeError)"

section \<open>The F.A.S.T. handler: identify\<close>

text \<open>The lines written through \<^verbatim>\<open>Debug.log\<close> just before each \<^verbatim>\<open>return\<close>.\<close>

datatype identify_log =
  EOF_at_correct_place
| Incomplete_FAT_entry
| Contains_invalid_char nat string
| Would_go_past_EOF nat
| Too_many_files

text \<open>\<^verbatim>\<open>c => { const cc = c.charCodeAt(0); return (cc <= 32) || (cc > 126); }\<close>\<close>

definition invalid_char :: "char \<Rightarrow> bool" where
  "invalid_char c = (let cc = (of_char c :: nat) in cc \<le> 32 \<or> cc > 126)"

text \<open>
  The \<^verbatim>\<open>for (let i = 0; i < MAX_FILES; i++)\<close> loop of \<^verbatim>\<open>identify\<close>, returning the log
  line and the JavaScript value of the \<^verbatim>\<open>return\<close> statement that ends it. The
  \<^verbatim>\<open>Debug.push\<close> and \<^verbatim>\<open>Debug.pop\<close> around the loop do not touch the result.
\<close>

function identify_loop :: "nat \<Rightarrow> RecordBuffer \<Rightarrow> error + identify_log \<times> bool" where
  "identify_loop i rb =
     (if i < MAX_FILES then
        (let bytesLeft = distFromEnd rb in
         if bytesLeft = 0 then Inr (EOF_at_correct_place, True)
         else if bytesLeft < int FATENTRY_LEN then Inr (Incomplete_FAT_entry, False)
         else
           (case readRecord rb of
              Inl e \<Rightarrow> Inl e
            | Inr (file, rb') \<Rightarrow>
                if list_ex invalid_char (name file) then
                  Inr (Contains_invalid_char i (name file), False)
                else if distFromEnd rb' < int (compressedSize file) then
                  Inr (Would_go_past_EOF i, False)
                else identify_loop (i + 1) (seekRel rb' (compressedSize file))))
      else Inr (Too_many_files, False))"
  by pat_completeness auto
termination
  by (relation "measure (\<lambda>(i, rb). MAX_FILES - i)") auto

declare identify_loop.simps [simp del]

definition identify_run :: "bytes \<Rightarrow> error + identify_log \<times> bool" where
  "identify_run content = identify_loop 0 \<lparr>buffer = content, pos = 0\<rparr>"

text \<open>\<^verbatim>\<open>Archive_DAT_FAST.identify(content)\<close>: the value of the \<^verbatim>\<open>return\<close> statement.\<close>

definition Archive_DAT_FAST_identify :: "bytes \<Rightarrow> error + confidence" where
  "Archive_DAT_FAST_identify content = map_sum id (\<lambda>(l, v). Boolean v) (identify_run content)"

definition Archive_DAT_FAST :: ArchiveHandler where
  "Archive_DAT_FAST =
     \<lparr>metadata_id = ''arc-dat-fast'',
      identify = (\<lambda>content filename. Archive_DAT_FAST_identify content)\<rparr>"

section \<open>The F.A.S.T. handler: the archive model and parse\<close>

text \<open>
  The table \<^verbatim>\<open>FASTTypes\<close>, in the order in which \<^verbatim>\<open>Object.keys\<close> lists its integer
  keys (ascending): type code, filename extension, semantic type (\<open>None\<close> is
  \<^verbatim>\<open>undefined\<close>).
\<close>

definition FASTTypes :: "(nat \<times> string \<times> string option) list" where
  "FASTTypes =
     [(0, ''.mif'', Some ''map/fast-info''),
      (1, ''.mbg'', Some ''map/fast-bg''),
      (2, ''.mfg'', Some ''map/fast-fg''),
      (3, ''.tbg'', Some ''tileset/fast-4p''),
      (4, ''.tfg'', Some ''tileset/fast-5p''),
      (5, ''.tbn'', Some ''tileset/fast-5p''),
      (6, ''.sgl'', Some ''map/fast-spritelist''),
      (7, ''.msp'', Some ''map/fast-sprites''),
      (8, [], Some ''sound/inverse''),
      (12, ''.pbg'', Some ''data/fast-tileprops''),
      (13, ''.pfg'', Some ''data/fast-tileprops''),
      (14, ''.pal'', Some ''palette/ega''),
      (16, ''.pbn'', Some ''data/fast-tileprops''),
      (32, [], None),
      (64, ''.spr'', Some ''image/fast-sprite'')]"

text \<open>
  The two handlers obtained from \<^verbatim>\<open>GameCompression.getHandler\<close> (package
  \<^verbatim>\<open>@malvineous/gamecomp\<close>, not among the sources) are opaque transforms on byte
  strings and are parameters of \<open>parse\<close> and \<open>generate\<close>; the parameter object they are
  called with (the fixed \<^verbatim>\<open>cmpDefaultParams\<close>, and on decompression the \<^verbatim>\<open>finalSize\<close>
  allocation hint) is part of the transform.
\<close>

record cmpHandler =
  reveal :: "bytes \<Rightarrow> bytes"
  obscure :: "bytes \<Rightarrow> bytes"

text \<open>
  A member file (\<^verbatim>\<open>Archive.File\<close>). The accessors \<^verbatim>\<open>getRaw\<close> and \<^verbatim>\<open>getContent\<close> are
  closures over an immutable buffer, so each is represented by what a call gives: the bytes,
  or the exception raised. \<open>compressed\<close> is \<^verbatim>\<open>attributes.compressed\<close>, with \<open>None\<close> for
  \<^verbatim>\<open>undefined\<close>.
\<close>

record File =
  file_name :: string
  file_type :: "string option"
  diskSize :: nat
  offset :: nat
  nativeSize :: nat
  compressed :: "bool option"
  getRaw :: "error + bytes"
  getContent :: "error + bytes"

record Archive =
  files :: "File list"

text \<open>
  The body of the loop of \<^verbatim>\<open>parse\<close> that builds one member file from a record read at
  container offset \<open>off\<close>.

  Modelled from the spec: the class \<^verbatim>\<open>Archive.File\<close> (archive.js) is not among the
  sources; its default \<^verbatim>\<open>getContent\<close>, which \<^verbatim>\<open>parse\<close> leaves in place for a file
  stored uncompressed, returns the bytes of \<^verbatim>\<open>getRaw\<close> (the spec: the transform chain is
  applied when \<^verbatim>\<open>attributes.compressed\<close> is true).
\<close>

definition parse_file :: "cmpHandler \<Rightarrow> cmpHandler \<Rightarrow> bytes \<Rightarrow> nat \<Rightarrow> fatEntry \<Rightarrow> File" where
  "parse_file cmpLZW cmpRLE content off e =
     (let raw = getU8 content off (compressedSize e);
          (nm, ty) = (case map_of FASTTypes (typeCode e) of
                        Some tc \<Rightarrow> (name e @ fst tc, snd tc)
                      | None \<Rightarrow> (name e, None))
      in if decompressedSize e = 0 then
           \<lparr>file_name = nm, file_type = ty, diskSize = compressedSize e, offset = off,
            nativeSize = compressedSize e, compressed = Some False,
            getRaw = raw, getContent = raw\<rparr>
         else
           \<lparr>file_name = nm, file_type = ty, diskSize = compressedSize e, offset = off,
            nativeSize = decompressedSize e, compressed = Some True,
            getRaw = raw,
            getContent =
              (case raw of
                 Inl err \<Rightarrow> Inl err
               | Inr r \<Rightarrow> Inr (take (decompressedSize e) (reveal cmpRLE (reveal cmpLZW r))))\<rparr>)"

function parse_loop ::
  "cmpHandler \<Rightarrow> cmpHandler \<Rightarrow> nat \<Rightarrow> RecordBuffer \<Rightarrow> nat \<Rightarrow> File list \<Rightarrow> error + File list" where
  "parse_loop cmpLZW cmpRLE i rb nextOffset fs =
     (if i < MAX_FILES then
        if distFromEnd rb = 0 then Inr fs
        else
          (case readRecord rb of
             Inl e \<Rightarrow> Inl e
           | Inr (fatEntry, rb') \<Rightarrow>
               parse_loop cmpLZW cmpRLE (i + 1) (seekRel rb' (compressedSize fatEntry))
                 (nextOffset + compressedSize fatEntry + FATENTRY_LEN)
                 (fs @ [parse_file cmpLZW cmpRLE (buffer rb) nextOffset fatEntry]))
      else Inr fs)"
  by pat_completeness auto
termination
  by (relation "measure (\<lambda>(cmpLZW, cmpRLE, i, rb, nextOffset, fs). MAX_FILES - i)") auto

declare parse_loop.simps [simp del]

definition parse :: "cmpHandler \<Rightarrow> cmpHandler \<Rightarrow> bytes \<Rightarrow> error + Archive" where
  "parse cmpLZW cmpRLE content =
     map_sum id (\<lambda>fs. \<lparr>files = fs\<rparr>)
       (parse_loop cmpLZW cmpRLE 0 \<lparr>buffer = content, pos = 0\<rparr> FATENTRY_LEN [])"

section \<open>The F.A.S.T. handler: generate\<close>

text \<open>
  \<^verbatim>\<open>toLowerCase\<close> on the characters a \<open>char\<close> can hold (code units 0 to 255): the
  letters A to Z, and the Latin-1 capitals 192 to 222 except the multiplication sign.
\<close>

definition toLowerCase_char :: "char \<Rightarrow> char" where
  "toLowerCase_char c =
     (let cc = (of_char c :: nat)
      in if (65 \<le> cc \<and> cc \<le> 90) \<or> (192 \<le> cc \<and> cc \<le> 222 \<and> cc \<noteq> 215)
         then char_of (cc + 32) else c)"

definition toLowerCase :: "string \<Rightarrow> string" where
  "toLowerCase s = map toLowerCase_char s"

text \<open>\<^verbatim>\<open>s.substr(-4)\<close>: the last four characters, or all of \<open>s\<close> when it is shorter.\<close>

definition substr_last4 :: "string \<Rightarrow> string" where
  "substr_last4 s = drop (length s - 4) s"

text \<open>
  \<^verbatim>\<open>Object.keys(FASTTypes).some(typeCode => ...)\<close>: the first table row whose extension
  is not empty and equals \<open>ext\<close> sets the type code and removes the last four characters
  of the name; \<open>(tc, nm)\<close> is the entry so far. The key is a string in the source and is
  turned into its number when the 16-bit field is written.
\<close>

fun some_FASTTypes ::
  "(nat \<times> string \<times> string option) list \<Rightarrow> string \<Rightarrow> nat \<times> string \<Rightarrow> nat \<times> string" where
  "some_FASTTypes [] ext (tc, nm) = (tc, nm)"
| "some_FASTTypes ((k, e, t) # rest) ext (tc, nm) =
     (if e = [] then some_FASTTypes rest ext (tc, nm)
      else if ext = e then (k, take (length nm - 4) nm)
      else some_FASTTypes rest ext (tc, nm))"

definition entry_typeCode_name :: "string \<Rightarrow> nat \<times> string" where
  "entry_typeCode_name fname =
     (let ext = toLowerCase (substr_last4 fname)
      in if ext = ''.snd'' then (8, fname)
         else some_FASTTypes FASTTypes ext (32, fname))"

text \<open>
  One turn of \<^verbatim>\<open>archive.files.forEach\<close>: the record passed to \<^verbatim>\<open>writeRecord\<close> and the
  bytes passed to \<^verbatim>\<open>put\<close>, or the exception.
\<close>

definition generate_forEach :: "cmpHandler \<Rightarrow> cmpHandler \<Rightarrow> File \<Rightarrow> error + fatEntry \<times> bytes" where
  "generate_forEach cmpLZW cmpRLE file =
     (let (tc, nm) = entry_typeCode_name (file_name file)
      in case getContent file of
           Inl e \<Rightarrow> Inl e
         | Inr nativeData \<Rightarrow>
             if length nativeData \<noteq> nativeSize file then
               Inl (Error ''Length of data and nativeSize field do not match!'')
             else if compressed file = Some False then
               Inr (\<lparr>typeCode = tc, compressedSize = nativeSize file, name = nm,
                     decompressedSize = 0\<rparr>, nativeData)
             else
               (let diskData = obscure cmpLZW (obscure cmpRLE nativeData)
                in Inr (\<lparr>typeCode = tc, compressedSize = length diskData, name = nm,
                         decompressedSize = nativeSize file\<rparr>, diskData)))"

text \<open>
  \<^verbatim>\<open>generate(archive)\<close>: the records and bodies written to the output buffer, in order.
  An exception in any turn leaves \<^verbatim>\<open>generate\<close> at once and nothing is returned. The
  size computed up front only sets the initial allocation of the output buffer.
\<close>

fun generate_loop ::
  "cmpHandler \<Rightarrow> cmpHandler \<Rightarrow> File list \<Rightarrow> (fatEntry \<times> bytes) list
     \<Rightarrow> error + (fatEntry \<times> bytes) list" where
  "generate_loop cmpLZW cmpRLE [] written = Inr written"
| "generate_loop cmpLZW cmpRLE (file # rest) written =
     (case generate_forEach cmpLZW cmpRLE file of
        Inl e \<Rightarrow> Inl e
      | Inr w \<Rightarrow> generate_loop cmpLZW cmpRLE rest (written @ [w]))"

definition generate :: "cmpHandler \<Rightarrow> cmpHandler \<Rightarrow> Archive \<Rightarrow> error + (fatEntry \<times> bytes) list" where
  "generate cmpLZW cmpRLE archive = generate_loop cmpLZW cmpRLE (files archive) []"

section \<open>Sample handlers\<close>

text \<open>A handler with the given id whose \<^verbatim>\<open>identify\<close> always answers \<^verbatim>\<open>{valid: v, reason}\<close>.\<close>

definition sample_handler :: "string \<Rightarrow> bool option \<Rightarrow> ArchiveHandler" where
  "sample_handler i v =
     \<lparr>metadata_id = i, identify = (\<lambda>content filename. Inr (Confidence v ''sample''))\<rparr>"

section \<open>Sample containers\<close>

text \<open>
  Records of 37 bytes. \<open>record_LEVEL1 tc cs ds\<close> has the filename field \<^verbatim>\<open>LEVEL1\<close> padded
  with NUL bytes, and the given type code, compressed size and decompressed size in their
  low bytes (each below 256 here). \<open>record_spaced\<close> has 31 filename bytes and no
  terminator: \<^verbatim>\<open>A\<close>, a space, and 29 times \<^verbatim>\<open>B\<close>.
\<close>

definition record_LEVEL1 :: "8 word \<Rightarrow> 8 word \<Rightarrow> 8 word \<Rightarrow> bytes" where
  "record_LEVEL1 tc cs ds =
     [tc, 0, cs, 0] @ [76, 69, 86, 69, 76, 49] @ replicate 25 0 @ [ds, 0]"

definition record_spaced :: bytes where
  "record_spaced = [32, 0, 0, 0] @ [65, 32] @ replicate 29 66 @ [0, 0]"

section \<open>Sample member files and transforms\<close>

text \<open>
  A member file as a caller builds it for \<^verbatim>\<open>generate\<close>: name, declared size, compression
  attribute, and the bytes both accessors return. \<open>sample_cmp k\<close> is a stand-in transform
  whose \<^verbatim>\<open>reveal\<close> appends \<open>k\<close> padding bytes and whose \<^verbatim>\<open>obscure\<close> removes them.
\<close>

definition sample_file :: "string \<Rightarrow> nat \<Rightarrow> bool option \<Rightarrow> bytes \<Rightarrow> File" where
  "sample_file n sz c d =
     \<lparr>file_name = n, file_type = None, diskSize = sz, offset = 0, nativeSize = sz,
      compressed = c, getRaw = Inr d, getContent = Inr d\<rparr>"

definition sample_cmp :: "nat \<Rightarrow> cmpHandler" where
  "sample_cmp k = \<lparr>reveal = (\<lambda>b. b @ replicate k 0), obscure = (\<lambda>b. take (length b - k) b)\<rparr>"

text \<open>What a directory listing shows of a member file: everything but the two accessors.\<close>

definition listing :: "File \<Rightarrow> string \<times> string option \<times> nat \<times> nat \<times> nat \<times> bool option" where
  "listing f = (file_name f, file_type f, diskSize f, offset f, nativeSize f, compressed f)"

text \<open>
  Used in the proofs about \<^verbatim>\<open>parse\<close>: the offsets of a list of member files follow one
  another from cursor position \<open>p\<close>, each file starting one record length after the body
  of the one before; and the cursor position after the last of them.
\<close>

fun chained :: "nat \<Rightarrow> File list \<Rightarrow> bool" where
  "chained p [] = True"
| "chained p (f # fs) = (offset f = p + FATENTRY_LEN \<and> chained (offset f + diskSize f) fs)"

fun walk_end :: "nat \<Rightarrow> File list \<Rightarrow> nat" where
  "walk_end p [] = p"
| "walk_end p (f # fs) = walk_end (offset f + diskSize f) fs"

section \<open>Properties of the registry\<close>

lemma consulted_append: "consulted (a @ b) = consulted a @ consulted b"
  by (induction a rule: consulted.induct) simp_all

lemma verdict_sample [simp]: "verdict (sample_handler i v) c fn = Inr v"
  by (simp add: verdict_def sample_handler_def)

lemma id_sample [simp]: "metadata_id (sample_handler i v) = i"
  by (simp add: sample_handler_def)

text \<open>
  When every handler of the list answers \<^verbatim>\<open>undefined\<close> or \<^verbatim>\<open>false\<close>, the loop consults all
  of them and appends those that answered \<^verbatim>\<open>undefined\<close>.
\<close>

lemma findHandler_loop_none_certain:
  "\<forall>y\<in>set fts. verdict y c fn = Inr None \<or> verdict y c fn = Inr (Some False) \<Longrightarrow>
   snd (findHandler_loop fts c fn hs dbg) = Inr (hs @ filter (\<lambda>y. verdict y c fn = Inr None) fts)
   \<and> consulted (fst (findHandler_loop fts c fn hs dbg)) = consulted dbg @ map metadata_id fts"
proof (induction fts arbitrary: hs dbg)
  case Nil
  then show ?case by simp
next
  case (Cons x rest)
  from Cons.prems obtain cf where cf: "identify x c fn = Inr cf"
    and v: "valid cf = None \<or> valid cf = Some False"
    by (cases "identify x c fn") (auto simp: verdict_def)
  from Cons.prems
  have rest: "\<forall>y\<in>set rest. verdict y c fn = Inr None \<or> verdict y c fn = Inr (Some False)"
    by simp
  show ?case using v
  proof
    assume "valid cf = None"
    then show ?thesis using cf Cons.IH [OF rest, of "hs @ [x]"]
      by (simp add: verdict_def consulted_append)
  next
    assume "valid cf = Some False"
    then show ?thesis using cf Cons.IH [OF rest, of hs]
      by (simp add: verdict_def consulted_append)
  qed
qed

text \<open>The first handler that answers \<^verbatim>\<open>true\<close> ends the loop and is the whole result.\<close>

lemma findHandler_loop_first_certain:
  "\<forall>y\<in>set pre. verdict y c fn = Inr None \<or> verdict y c fn = Inr (Some False) \<Longrightarrow>
   verdict x c fn = Inr (Some True) \<Longrightarrow>
   snd (findHandler_loop (pre @ x # post) c fn hs dbg) = Inr [x]
   \<and> consulted (fst (findHandler_loop (pre @ x # post) c fn hs dbg))
       = consulted dbg @ map metadata_id (pre @ [x])"
proof (induction pre arbitrary: hs dbg)
  case Nil
  then obtain cf where "identify x c fn = Inr cf" "valid cf = Some True"
    by (cases "identify x c fn") (auto simp: verdict_def)
  then show ?case by (simp add: consulted_append)
next
  case (Cons p pre)
  from Cons.prems obtain cf where cf: "identify p c fn = Inr cf"
    and v: "valid cf = None \<or> valid cf = Some False"
    by (cases "identify p c fn") (auto simp: verdict_def)
  from Cons.prems
  have rest: "\<forall>y\<in>set pre. verdict y c fn = Inr None \<or> verdict y c fn = Inr (Some False)"
    by simp
  show ?case using v
  proof
    assume "valid cf = None"
    then show ?thesis using cf Cons.IH [OF rest Cons.prems(2), of "hs @ [p]"]
      by (simp add: consulted_append)
  next
    assume "valid cf = Some False"
    then show ?thesis using cf Cons.IH [OF rest Cons.prems(2), of hs]
      by (simp add: consulted_append)
  qed
qed

lemma findHandler_loop_at_most_one:
  "x \<in> set fts \<Longrightarrow> verdict x c fn = Inr (Some True) \<Longrightarrow>
   snd (findHandler_loop fts c fn hs dbg) = Inr res \<Longrightarrow> length res = 1"
proof (induction fts arbitrary: hs dbg)
  case Nil
  then show ?case by simp
next
  case (Cons y rest)
  show ?case
  proof (cases "identify y c fn")
    case (Inl e)
    with Cons.prems show ?thesis by simp
  next
    case (Inr cf)
    show ?thesis
    proof (cases "valid cf = Some True")
      case True
      with Inr Cons.prems show ?thesis by auto
    next
      case False
      with Inr Cons.prems(1,2) have "x \<in> set rest" by (auto simp: verdict_def)
      with False Inr Cons.prems Cons.IH show ?thesis
        by (auto split: if_splits)
    qed
  qed
qed

text \<open>
  C1. For every content buffer and filename: if \<open>x\<close> is the first handler of the registry,
  in priority order, whose \<^verbatim>\<open>identify\<close> reports \<^verbatim>\<open>valid === true\<close> (the handlers before it
  report \<^verbatim>\<open>undefined\<close> or \<^verbatim>\<open>false\<close>), then \<^verbatim>\<open>findHandler\<close> returns the one-element list
  \<open>[x]\<close>, whatever candidates were accumulated before, and the handlers consulted are those
  up to and including \<open>x\<close>: the iteration stops there. If no handler reports \<^verbatim>\<open>true\<close>, the
  result is the list of the handlers that reported \<^verbatim>\<open>undefined\<close>, in priority order, and
  all handlers are consulted. Whenever any handler reports \<^verbatim>\<open>true\<close>, a returned list has
  exactly one element.
\<close>

theorem findHandler_certain_match_wins:
  "(\<forall>pre x post.
      fileTypes = pre @ x # post
      \<and> (\<forall>y\<in>set pre. verdict y content filename = Inr None
                      \<or> verdict y content filename = Inr (Some False))
      \<and> verdict x content filename = Inr (Some True)
      \<longrightarrow> snd (findHandler fileTypes (Uint8Array content) filename) = Inr [x]
        \<and> consulted (fst (findHandler fileTypes (Uint8Array content) filename))
            = map metadata_id (pre @ [x]))
   \<and> ((\<forall>y\<in>set fileTypes. verdict y content filename = Inr None
                          \<or> verdict y content filename = Inr (Some False))
      \<longrightarrow> snd (findHandler fileTypes (Uint8Array content) filename)
            = Inr (filter (\<lambda>y. verdict y content filename = Inr None) fileTypes)
        \<and> consulted (fst (findHandler fileTypes (Uint8Array content) filename))
            = map metadata_id fileTypes)
   \<and> (\<forall>res. (\<exists>x\<in>set fileTypes. verdict x content filename = Inr (Some True))
         \<and> snd (findHandler fileTypes (Uint8Array content) filename) = Inr res
      \<longrightarrow> length res = 1)"
proof (intro conjI allI impI)
  fix pre x post
  assume h: "fileTypes = pre @ x # post
      \<and> (\<forall>y\<in>set pre. verdict y content filename = Inr None
                      \<or> verdict y content filename = Inr (Some False))
      \<and> verdict x content filename = Inr (Some True)"
  then show "snd (findHandler fileTypes (Uint8Array content) filename) = Inr [x]"
    using findHandler_loop_first_certain [of pre content filename x post "[]" "[Autodetecting]"]
    by (simp add: findHandler_def)
  from h show "consulted (fst (findHandler fileTypes (Uint8Array content) filename))
            = map metadata_id (pre @ [x])"
    using findHandler_loop_first_certain [of pre content filename x post "[]" "[Autodetecting]"]
    by (simp add: findHandler_def)
next
  assume h: "\<forall>y\<in>set fileTypes. verdict y content filename = Inr None
                          \<or> verdict y content filename = Inr (Some False)"
  then show "snd (findHandler fileTypes (Uint8Array content) filename)
            = Inr (filter (\<lambda>y. verdict y content filename = Inr None) fileTypes)"
    using findHandler_loop_none_certain [of fileTypes content filename "[]" "[Autodetecting]"]
    by (simp add: findHandler_def)
  from h show "consulted (fst (findHandler fileTypes (Uint8Array content) filename))
            = map metadata_id fileTypes"
    using findHandler_loop_none_certain [of fileTypes content filename "[]" "[Autodetecting]"]
    by (simp add: findHandler_def)
next
  fix res
  assume "(\<exists>x\<in>set fileTypes. verdict x content filename = Inr (Some True))
         \<and> snd (findHandler fileTypes (Uint8Array content) filename) = Inr res"
  then show "length res = 1"
    using findHandler_loop_at_most_one [of _ fileTypes content filename "[]" "[Autodetecting]" res]
    by (auto simp: findHandler_def)
qed

text \<open>
  The theorem at two registries: one where the third of four handlers is certain, and one
  with two possible candidates and no certain one.
\<close>

theorem findHandler_certain_match_wins_witness:
  "snd (findHandler [sample_handler ''a'' None, sample_handler ''b'' (Some False),
                     sample_handler ''c'' (Some True), sample_handler ''d'' None]
          (Uint8Array []) None) = Inr [sample_handler ''c'' (Some True)]
   \<and> consulted (fst (findHandler [sample_handler ''a'' None, sample_handler ''b'' (Some False),
                     sample_handler ''c'' (Some True), sample_handler ''d'' None]
          (Uint8Array []) None)) = [''a'', ''b'', ''c'']
   \<and> snd (findHandler [sample_handler ''a'' None, sample_handler ''b'' (Some False),
                     sample_handler ''d'' None]
          (Uint8Array []) None) = Inr [sample_handler ''a'' None, sample_handler ''d'' None]
   \<and> consulted (fst (findHandler [sample_handler ''a'' None, sample_handler ''b'' (Some False),
                     sample_handler ''d'' None]
          (Uint8Array []) None)) = [''a'', ''b'', ''d'']"
proof -
  let ?a = "sample_handler ''a'' None" and ?b = "sample_handler ''b'' (Some False)"
  let ?c = "sample_handler ''c'' (Some True)" and ?d = "sample_handler ''d'' None"
  have first: "snd (findHandler [?a, ?b, ?c, ?d] (Uint8Array []) None) = Inr [?c]
      \<and> consulted (fst (findHandler [?a, ?b, ?c, ?d] (Uint8Array []) None))
          = map metadata_id ([?a, ?b] @ [?c])"
    using findHandler_certain_match_wins [of "[?a, ?b, ?c, ?d]" "[]" None,
        THEN conjunct1, rule_format, of "[?a, ?b]" ?c "[?d]"]
    by simp
  have none: "snd (findHandler [?a, ?b, ?d] (Uint8Array []) None)
        = Inr (filter (\<lambda>y. verdict y [] None = Inr None) [?a, ?b, ?d])
      \<and> consulted (fst (findHandler [?a, ?b, ?d] (Uint8Array []) None))
          = map metadata_id [?a, ?b, ?d]"
    using findHandler_certain_match_wins [of "[?a, ?b, ?d]" "[]" None,
        THEN conjunct2, THEN conjunct1]
    by simp
  have one: "length [?c] = 1"
    using first findHandler_certain_match_wins [of "[?a, ?b, ?c, ?d]" "[]" None,
        THEN conjunct2, THEN conjunct2, rule_format, of "[?c]"]
    by simp
  from first none one show ?thesis by simp
qed

text \<open>
  C10. For every content argument whose \<^verbatim>\<open>length\<close> property is \<^verbatim>\<open>undefined\<close>,
  \<^verbatim>\<open>findHandler\<close> raises the error \<^verbatim>\<open>content parameter must be Uint8Array\<close>; the debug
  log holds no consultation line, so no handler's \<^verbatim>\<open>identify\<close> was called, and no list is
  returned.
\<close>

theorem findHandler_requires_length:
  "content_length content = None \<Longrightarrow>
   findHandler fileTypes content filename
     = ([Autodetecting], Inl (Error ''content parameter must be Uint8Array''))
   \<and> consulted (fst (findHandler fileTypes content filename)) = []"
  by (cases content) (simp_all add: findHandler_def)

theorem findHandler_requires_length_witness:
  "content_length NoLength = None
   \<and> findHandler [sample_handler ''a'' (Some True)] NoLength (Some ''game.dat'')
       = ([Autodetecting], Inl (Error ''content parameter must be Uint8Array''))
   \<and> consulted (fst (findHandler [sample_handler ''a'' (Some True)] NoLength
        (Some ''game.dat''))) = []"
  using findHandler_requires_length
    [of NoLength "[sample_handler ''a'' (Some True)]" "Some ''game.dat''"]
  by simp

section \<open>Properties of identify\<close>

lemmas eval_defs = identify_run_def identify_loop.simps parse_def parse_loop.simps parse_file_def
  MAX_FILES_def distFromEnd_def readRecord_def decode_fatEntry_def FATENTRY_LEN_def u16le_def
  reqTerm_def invalid_char_def seekRel_def getU8_def record_LEVEL1_def record_spaced_def
  FASTTypes_def char_of_def bit_Suc_0_iff Let_def

text \<open>The loop never raises: the record is read only when 37 bytes remain.\<close>

lemma identify_loop_never_raises: "\<exists>l v. identify_loop i rb = Inr (l, v)"
proof (induction i rb rule: identify_loop.induct)
  case (1 i rb)
  show ?case
  proof (cases "i < MAX_FILES \<and> distFromEnd rb \<noteq> 0 \<and> \<not> distFromEnd rb < int FATENTRY_LEN")
    case False
    then show ?thesis
      by (subst identify_loop.simps) (auto simp: Let_def)
  next
    case True
    then have fits: "pos rb + FATENTRY_LEN \<le> length (buffer rb)"
      by (simp add: distFromEnd_def)
    then obtain fl rb' where rd: "readRecord rb = Inr (fl, rb')"
      by (simp add: readRecord_def)
    show ?thesis
    proof (cases "list_ex invalid_char (name fl) \<or> distFromEnd rb' < int (compressedSize fl)")
      case True
      with \<open>i < MAX_FILES \<and> _\<close> rd show ?thesis
        by (subst identify_loop.simps) (auto simp: Let_def)
    next
      case False
      with True rd "1.IH" [of "distFromEnd rb" "(fl, rb')" fl rb']
      show ?thesis
        by (subst identify_loop.simps) (auto simp: Let_def)
    qed
  qed
qed

lemma identify_returns_boolean:
  "\<exists>b. Archive_DAT_FAST_identify content = Inr (Boolean b)"
proof -
  from identify_loop_never_raises [of 0 "\<lparr>buffer = content, pos = 0\<rparr>"]
  obtain l v where "identify_run content = Inr (l, v)"
    by (auto simp: identify_run_def)
  then show ?thesis by (simp add: Archive_DAT_FAST_identify_def)
qed

lemma identify_empty: "identify_run [] = Inr (EOF_at_correct_place, True)"
  by (simp add: identify_run_def identify_loop.simps MAX_FILES_def distFromEnd_def)

lemma identify_truncated:
  "0 < length content \<Longrightarrow> length content < FATENTRY_LEN \<Longrightarrow>
   identify_run content = Inr (Incomplete_FAT_entry, False)"
  by (simp add: identify_run_def identify_loop.simps MAX_FILES_def distFromEnd_def)

lemma readRecord_fits:
  "pos rb + FATENTRY_LEN \<le> length (buffer rb) \<Longrightarrow>
   readRecord rb = Inr (decode_fatEntry (take FATENTRY_LEN (drop (pos rb) (buffer rb))),
                        rb\<lparr>pos := pos rb + FATENTRY_LEN\<rparr>)"
  by (simp add: readRecord_def)

lemma name_decode:
  "name (decode_fatEntry (take FATENTRY_LEN (drop p b))) = reqTerm (take 31 (drop (p + 4) b))"
  by (simp add: decode_fatEntry_def FATENTRY_LEN_def drop_take add.commute)

text \<open>
  The decision made at the size check: when the compressed size declared by the record at
  the cursor exceeds the bytes that follow the record, the loop ends with the value
  \<^verbatim>\<open>false\<close>, whatever the filename is.
\<close>

lemma identify_loop_oversized:
  "i < MAX_FILES \<Longrightarrow> pos rb + FATENTRY_LEN \<le> length (buffer rb) \<Longrightarrow>
   length (buffer rb) - (pos rb + FATENTRY_LEN)
     < compressedSize (decode_fatEntry (take FATENTRY_LEN (drop (pos rb) (buffer rb)))) \<Longrightarrow>
   \<exists>l. identify_loop i rb = Inr (l, False)"
proof -
  assume i: "i < MAX_FILES" and fits: "pos rb + FATENTRY_LEN \<le> length (buffer rb)"
    and over: "length (buffer rb) - (pos rb + FATENTRY_LEN)
     < compressedSize (decode_fatEntry (take FATENTRY_LEN (drop (pos rb) (buffer rb))))"
  let ?e = "decode_fatEntry (take FATENTRY_LEN (drop (pos rb) (buffer rb)))"
  let ?rb' = "rb\<lparr>pos := pos rb + FATENTRY_LEN\<rparr>"
  have rd: "readRecord rb = Inr (?e, ?rb')" using fits by (rule readRecord_fits)
  have left: "distFromEnd rb \<noteq> 0" "\<not> distFromEnd rb < int FATENTRY_LEN"
    using fits by (simp_all add: distFromEnd_def FATENTRY_LEN_def)
  from fits over have "int (length (buffer rb)) - int (pos rb + FATENTRY_LEN)
      < int (compressedSize ?e)"
    by linarith
  then have past: "distFromEnd ?rb' < int (compressedSize ?e)"
    by (simp add: distFromEnd_def)
  show ?thesis using i rd left past
    by (subst identify_loop.simps) (simp add: Let_def)
qed

lemma identify_oversized_first_record:
  "FATENTRY_LEN \<le> length content \<Longrightarrow>
   length content - FATENTRY_LEN < compressedSize (decode_fatEntry (take FATENTRY_LEN content)) \<Longrightarrow>
   Archive_DAT_FAST_identify content = Inr (Boolean False)"
  using identify_loop_oversized [of 0 "\<lparr>buffer = content, pos = 0\<rparr>"]
  by (auto simp: Archive_DAT_FAST_identify_def identify_run_def MAX_FILES_def)

text \<open>
  C2. The contract: for every content and filename, \<^verbatim>\<open>identify\<close> returns an object with a
  \<^verbatim>\<open>valid\<close> property that is \<^verbatim>\<open>true\<close>, \<^verbatim>\<open>false\<close> or \<^verbatim>\<open>undefined\<close>, and a \<^verbatim>\<open>reason\<close>. The
  base class does so. The F.A.S.T. handler does not: on every content it returns a bare
  boolean, which is no such object and has no \<^verbatim>\<open>reason\<close>; on the empty buffer it returns
  \<^verbatim>\<open>true\<close>.
\<close>

theorem FAST_identify_returns_bare_boolean:
  "(\<exists>b. Archive_DAT_FAST_identify content = Inr (Boolean b))
   \<and> map_sum id is_confidence_object (Archive_DAT_FAST_identify content) = Inr False
   \<and> map_sum id reason (Archive_DAT_FAST_identify content) = Inr None
   \<and> Archive_DAT_FAST_identify [] = Inr (Boolean True)
   \<and> map_sum id is_confidence_object (ArchiveHandler_identify content filename) = Inr True"
proof -
  from identify_returns_boolean [of content]
  obtain b where "Archive_DAT_FAST_identify content = Inr (Boolean b)" ..
  moreover have "Archive_DAT_FAST_identify [] = Inr (Boolean True)"
    by (simp add: Archive_DAT_FAST_identify_def identify_empty)
  ultimately show ?thesis by (simp add: ArchiveHandler_identify_def)
qed

text \<open>
  C7. A single well-formed record (name \<^verbatim>\<open>LEVEL1\<close>) that declares a compressed size of 5
  with no byte after it: the loop ends at the size check with \<^verbatim>\<open>false\<close>, as the claim
  wants, but the value returned is the bare boolean, so \<^verbatim>\<open>.valid\<close> reads \<^verbatim>\<open>undefined\<close> and
  \<^verbatim>\<open>findHandler\<close> keeps the handler as a possible match instead of discarding it.
\<close>

theorem FAST_identify_oversized_body_reads_as_possible:
  "Archive_DAT_FAST_identify (record_LEVEL1 1 5 0) = Inr (Boolean False)
   \<and> identify_run (record_LEVEL1 1 5 0) = Inr (Would_go_past_EOF 0, False)
   \<and> verdict Archive_DAT_FAST (record_LEVEL1 1 5 0) None = Inr None
   \<and> snd (findHandler [Archive_DAT_FAST] (Uint8Array (record_LEVEL1 1 5 0)) None)
       = Inr [Archive_DAT_FAST]"
proof -
  have run: "identify_run (record_LEVEL1 1 5 0) = Inr (Would_go_past_EOF 0, False)"
    by (simp add: eval_defs)
  then have v: "Archive_DAT_FAST_identify (record_LEVEL1 1 5 0) = Inr (Boolean False)"
    by (simp add: Archive_DAT_FAST_identify_def)
  then have i: "identify Archive_DAT_FAST (record_LEVEL1 1 5 0) None = Inr (Boolean False)"
    by (simp add: Archive_DAT_FAST_def)
  from run v i show ?thesis by (simp add: verdict_def findHandler_def)
qed

text \<open>
  C8. On the empty buffer the loop ends with \<^verbatim>\<open>true\<close>, and on ten bytes with \<^verbatim>\<open>false\<close>, as
  the claim wants; both are returned as bare booleans, so \<^verbatim>\<open>.valid\<close> reads \<^verbatim>\<open>undefined\<close>
  in both cases and \<^verbatim>\<open>findHandler\<close> lists the handler as a possible match for the
  ten bytes.
\<close>

theorem FAST_identify_boundaries_read_as_possible:
  "Archive_DAT_FAST_identify [] = Inr (Boolean True)
   \<and> verdict Archive_DAT_FAST [] None = Inr None
   \<and> Archive_DAT_FAST_identify (replicate 10 0) = Inr (Boolean False)
   \<and> verdict Archive_DAT_FAST (replicate 10 0) None = Inr None
   \<and> snd (findHandler [Archive_DAT_FAST] (Uint8Array (replicate 10 0)) None)
       = Inr [Archive_DAT_FAST]"
proof -
  have e: "Archive_DAT_FAST_identify [] = Inr (Boolean True)"
    by (simp add: Archive_DAT_FAST_identify_def identify_empty)
  have t: "Archive_DAT_FAST_identify (replicate 10 0) = Inr (Boolean False)"
    by (simp add: Archive_DAT_FAST_identify_def identify_truncated FATENTRY_LEN_def)
  from e t have "identify Archive_DAT_FAST [] None = Inr (Boolean True)"
    and "identify Archive_DAT_FAST (replicate 10 0) None = Inr (Boolean False)"
    by (simp_all add: Archive_DAT_FAST_def)
  with e t show ?thesis by (simp add: verdict_def findHandler_def)
qed

subsection \<open>The filename check\<close>

lemma identify_loop_invalid_index:
  "identify_loop j rb = Inr (Contains_invalid_char k nm, v) \<Longrightarrow> j \<le> k"
proof (induction j rb rule: identify_loop.induct)
  case (1 i rb)
  show ?case
  proof (cases "i < MAX_FILES \<and> distFromEnd rb \<noteq> 0 \<and> \<not> distFromEnd rb < int FATENTRY_LEN")
    case False
    with "1.prems" show ?thesis
      by (subst (asm) identify_loop.simps) (auto simp: Let_def split: if_splits)
  next
    case True
    then have "pos rb + FATENTRY_LEN \<le> length (buffer rb)"
      by (simp add: distFromEnd_def)
    then obtain fl rb' where rd: "readRecord rb = Inr (fl, rb')"
      by (simp add: readRecord_def)
    show ?thesis
    proof (cases "list_ex invalid_char (name fl) \<or> distFromEnd rb' < int (compressedSize fl)")
      case stop: True
      with True rd "1.prems" show ?thesis
        by (subst (asm) identify_loop.simps) (auto simp: Let_def split: if_splits)
    next
      case continue: False
      with True rd "1.prems"
      have "identify_loop (i + 1) (seekRel rb' (compressedSize fl))
              = Inr (Contains_invalid_char k nm, v)"
        by (subst (asm) identify_loop.simps) (simp add: Let_def)
      with True rd continue "1.IH" [of "distFromEnd rb" "(fl, rb')" fl rb']
      have "i + 1 \<le> k" by simp
      then show ?thesis by simp
    qed
  qed
qed

lemma invalid_char_byte:
  "invalid_char (char_of (unat (b :: 8 word))) = (unat b \<le> 32 \<or> 126 < unat b)"
proof -
  have "unat b < 256" using unsigned_less [of b, where ?'a = nat] by simp
  then show ?thesis by (simp add: invalid_char_def Let_def)
qed

lemma invalid_name_bytes:
  "list_ex invalid_char (reqTerm field)
     = list_ex (\<lambda>b. unat b \<le> 32 \<or> 126 < unat b) (takeWhile (\<lambda>b. b \<noteq> 0) field)"
  by (simp add: reqTerm_def list_ex_iff invalid_char_byte)

text \<open>
  C6, as stated, fails twice. The filename field of the first sample record holds NUL bytes,
  which are control characters, and the record is accepted: the bytes from the terminator
  on are not looked at. Every byte of the filename field of the second sample record is in
  the printable ASCII range 32 to 126, and the record is rejected at the filename check:
  the space counts as invalid.
\<close>

theorem identify_filename_field_counterexample:
  "(0 :: 8 word) \<in> set (take 31 (drop 4 (record_LEVEL1 1 0 0)))
   \<and> identify_run (record_LEVEL1 1 0 0) = Inr (EOF_at_correct_place, True)
   \<and> set (take 31 (drop 4 record_spaced)) = {65, 32, 66}
   \<and> identify_run record_spaced
       = Inr (Contains_invalid_char 0 (''A '' @ replicate 29 (CHR ''B'')), False)"
proof -
  have 1: "(0 :: 8 word) \<in> set (take 31 (drop 4 (record_LEVEL1 1 0 0)))"
    by (simp add: record_LEVEL1_def)
  have 2: "identify_run (record_LEVEL1 1 0 0) = Inr (EOF_at_correct_place, True)"
    by (simp add: eval_defs)
  have 3: "set (take 31 (drop 4 record_spaced)) = {65, 32, 66}"
    by (auto simp: record_spaced_def)
  have 4: "identify_run record_spaced
       = Inr (Contains_invalid_char 0 (''A '' @ replicate 29 (CHR ''B'')), False)"
    by (simp add: eval_defs)
  from 1 2 3 4 show ?thesis by blast
qed

text \<open>
  C6, amended. When the loop is at a whole record (index \<open>i\<close> below the ceiling, 37 bytes
  available), \<^verbatim>\<open>identify\<close> ends at the filename check of that record exactly when one of
  the bytes of the 31-byte filename field that come before its first NUL byte is 32 or
  less, or greater than 126; and when it ends there, the value is \<^verbatim>\<open>false\<close> and the name
  logged is the decoded one. A record whose name bytes are all in 33 to 126 is not rejected
  at this step.
\<close>

theorem identify_filename_validation:
  "i < MAX_FILES \<Longrightarrow> pos rb + FATENTRY_LEN \<le> length (buffer rb) \<Longrightarrow>
   ((\<exists>nm v. identify_loop i rb = Inr (Contains_invalid_char i nm, v))
      = list_ex (\<lambda>b. unat b \<le> 32 \<or> 126 < unat b)
          (takeWhile (\<lambda>b. b \<noteq> 0) (take 31 (drop (pos rb + 4) (buffer rb)))))
   \<and> ((\<exists>nm v. identify_loop i rb = Inr (Contains_invalid_char i nm, v))
      = (identify_loop i rb
          = Inr (Contains_invalid_char i (reqTerm (take 31 (drop (pos rb + 4) (buffer rb)))),
                 False)))"
proof -
  assume i: "i < MAX_FILES" and fits: "pos rb + FATENTRY_LEN \<le> length (buffer rb)"
  let ?e = "decode_fatEntry (take FATENTRY_LEN (drop (pos rb) (buffer rb)))"
  let ?rb' = "rb\<lparr>pos := pos rb + FATENTRY_LEN\<rparr>"
  let ?field = "take 31 (drop (pos rb + 4) (buffer rb))"
  let ?bad = "list_ex (\<lambda>b. unat b \<le> 32 \<or> 126 < unat b) (takeWhile (\<lambda>b. b \<noteq> 0) ?field)"
  have rd: "readRecord rb = Inr (?e, ?rb')" using fits by (rule readRecord_fits)
  have nm: "name ?e = reqTerm ?field" by (rule name_decode)
  have left: "distFromEnd rb \<noteq> 0" "\<not> distFromEnd rb < int FATENTRY_LEN"
    using fits by (simp_all add: distFromEnd_def FATENTRY_LEN_def)
  have bad: "?bad \<Longrightarrow> identify_loop i rb = Inr (Contains_invalid_char i (reqTerm ?field), False)"
    using i rd left nm invalid_name_bytes [of ?field]
    by (subst identify_loop.simps) (simp add: Let_def)
  have good: "\<not> ?bad \<Longrightarrow> identify_loop i rb \<noteq> Inr (Contains_invalid_char i n, v)" for n v
  proof
    assume nb: "\<not> ?bad" and eq: "identify_loop i rb = Inr (Contains_invalid_char i n, v)"
    have ok: "\<not> list_ex invalid_char (name ?e)"
      using nb nm invalid_name_bytes [of ?field] by simp
    have "identify_loop i rb =
        (if distFromEnd ?rb' < int (compressedSize ?e) then Inr (Would_go_past_EOF i, False)
         else identify_loop (i + 1) (seekRel ?rb' (compressedSize ?e)))"
      using i rd left ok by (subst identify_loop.simps) (simp add: Let_def)
    with eq have "identify_loop (i + 1) (seekRel ?rb' (compressedSize ?e))
        = Inr (Contains_invalid_char i n, v)"
      by (simp split: if_splits)
    then have "i + 1 \<le> i" by (rule identify_loop_invalid_index)
    then show False by simp
  qed
  show ?thesis using bad good by blast
qed

theorem identify_filename_validation_witness:
  "(0::nat) < MAX_FILES
   \<and> pos \<lparr>buffer = record_spaced, pos = 0\<rparr> + FATENTRY_LEN
       \<le> length (buffer \<lparr>buffer = record_spaced, pos = 0\<rparr>)
   \<and> (\<exists>nm v. identify_loop 0 \<lparr>buffer = record_spaced, pos = 0\<rparr>
               = Inr (Contains_invalid_char 0 nm, v))
   \<and> pos \<lparr>buffer = record_LEVEL1 1 0 0, pos = 0\<rparr> + FATENTRY_LEN
       \<le> length (buffer \<lparr>buffer = record_LEVEL1 1 0 0, pos = 0\<rparr>)
   \<and> \<not> (\<exists>nm v. identify_loop 0 \<lparr>buffer = record_LEVEL1 1 0 0, pos = 0\<rparr>
               = Inr (Contains_invalid_char 0 nm, v))"
proof -
  have i: "(0::nat) < MAX_FILES" by (simp add: MAX_FILES_def)
  have f1: "pos \<lparr>buffer = record_spaced, pos = 0\<rparr> + FATENTRY_LEN
       \<le> length (buffer \<lparr>buffer = record_spaced, pos = 0\<rparr>)"
    by (simp add: record_spaced_def FATENTRY_LEN_def)
  have f2: "pos \<lparr>buffer = record_LEVEL1 1 0 0, pos = 0\<rparr> + FATENTRY_LEN
       \<le> length (buffer \<lparr>buffer = record_LEVEL1 1 0 0, pos = 0\<rparr>)"
    by (simp add: record_LEVEL1_def FATENTRY_LEN_def)
  have b1: "list_ex (\<lambda>b. unat b \<le> 32 \<or> 126 < unat b)
          (takeWhile (\<lambda>b. b \<noteq> 0) (take 31 (drop (pos \<lparr>buffer = record_spaced, pos = 0\<rparr> + 4)
             (buffer \<lparr>buffer = record_spaced, pos = 0\<rparr>))))"
    by (simp add: record_spaced_def)
  have b2: "\<not> list_ex (\<lambda>b. unat b \<le> 32 \<or> 126 < unat b)
          (takeWhile (\<lambda>b. b \<noteq> 0) (take 31 (drop (pos \<lparr>buffer = record_LEVEL1 1 0 0, pos = 0\<rparr> + 4)
             (buffer \<lparr>buffer = record_LEVEL1 1 0 0, pos = 0\<rparr>))))"
    by (simp add: record_LEVEL1_def)
  show ?thesis
    using i f1 f2 b1 b2
      identify_filename_validation [OF i f1, THEN conjunct1]
      identify_filename_validation [OF i f2, THEN conjunct1]
    by simp
qed

section \<open>Properties of generate\<close>

lemma generate_forEach_mismatch:
  "getContent f = Inr d \<Longrightarrow> length d \<noteq> nativeSize f \<Longrightarrow>
   generate_forEach cmpLZW cmpRLE f
     = Inl (Error ''Length of data and nativeSize field do not match!'')"
  by (simp add: generate_forEach_def split: prod.splits)

lemma generate_forEach_error:
  "generate_forEach cmpLZW cmpRLE f = Inl e \<Longrightarrow>
   getContent f = Inl e \<or> e = Error ''Length of data and nativeSize field do not match!''"
  by (auto simp: generate_forEach_def Let_def split: prod.splits sum.splits if_splits)

lemma generate_loop_fails:
  "f \<in> set fs \<Longrightarrow> generate_forEach cmpLZW cmpRLE f = Inl e \<Longrightarrow>
   \<exists>e'. generate_loop cmpLZW cmpRLE fs written = Inl e'"
proof (induction fs arbitrary: written)
  case Nil
  then show ?case by simp
next
  case (Cons g rest)
  show ?case
  proof (cases "generate_forEach cmpLZW cmpRLE g")
    case (Inl e')
    then show ?thesis by simp
  next
    case (Inr w)
    with Cons.prems have "f \<in> set rest" by auto
    from Cons.IH [OF this Cons.prems(2)] Inr show ?thesis by simp
  qed
qed

lemma generate_loop_error:
  "generate_loop cmpLZW cmpRLE fs written = Inl e \<Longrightarrow>
   \<exists>f\<in>set fs. generate_forEach cmpLZW cmpRLE f = Inl e"
proof (induction fs arbitrary: written)
  case Nil
  then show ?case by simp
next
  case (Cons g rest)
  then show ?case
    by (cases "generate_forEach cmpLZW cmpRLE g") auto
qed

text \<open>
  C4. For every archive in which some member file's \<^verbatim>\<open>getContent()\<close> returns a byte
  string whose length differs from that file's \<^verbatim>\<open>nativeSize\<close>, \<^verbatim>\<open>generate\<close> raises and
  returns no output at all; when every accessor returns, the error raised is
  \<^verbatim>\<open>Length of data and nativeSize field do not match!\<close>.
\<close>

theorem generate_size_mismatch_fails:
  "f \<in> set (files archive) \<Longrightarrow> getContent f = Inr d \<Longrightarrow> length d \<noteq> nativeSize f \<Longrightarrow>
   (\<exists>e. generate cmpLZW cmpRLE archive = Inl e)
   \<and> ((\<forall>g\<in>set (files archive). \<exists>c. getContent g = Inr c) \<longrightarrow>
        generate cmpLZW cmpRLE archive
          = Inl (Error ''Length of data and nativeSize field do not match!''))"
proof -
  assume f: "f \<in> set (files archive)" and d: "getContent f = Inr d"
    and len: "length d \<noteq> nativeSize f"
  have bad: "generate_forEach cmpLZW cmpRLE f
      = Inl (Error ''Length of data and nativeSize field do not match!'')"
    using d len by (rule generate_forEach_mismatch)
  from generate_loop_fails [OF f bad]
  obtain e where e: "generate cmpLZW cmpRLE archive = Inl e"
    by (auto simp: generate_def)
  have "e = Error ''Length of data and nativeSize field do not match!''"
    if all: "\<forall>g\<in>set (files archive). \<exists>c. getContent g = Inr c"
  proof -
    from e obtain g where g: "g \<in> set (files archive)"
      and ge: "generate_forEach cmpLZW cmpRLE g = Inl e"
      using generate_loop_error [of cmpLZW cmpRLE "files archive" "[]" e]
      by (auto simp: generate_def)
    from all g obtain c where "getContent g = Inr c" by blast
    with generate_forEach_error [OF ge] show ?thesis by simp
  qed
  with e show ?thesis by blast
qed

theorem generate_size_mismatch_fails_witness:
  "sample_file ''B.DAT'' 3 None [1, 2]
     \<in> set (files \<lparr>files = [sample_file ''A.DAT'' 1 None [9], sample_file ''B.DAT'' 3 None [1, 2]]\<rparr>)
   \<and> getContent (sample_file ''B.DAT'' 3 None [1, 2]) = Inr [1, 2]
   \<and> length [1, 2 :: 8 word] \<noteq> nativeSize (sample_file ''B.DAT'' 3 None [1, 2])
   \<and> generate (sample_cmp 0) (sample_cmp 0)
        \<lparr>files = [sample_file ''A.DAT'' 1 None [9], sample_file ''B.DAT'' 3 None [1, 2]]\<rparr>
       = Inl (Error ''Length of data and nativeSize field do not match!'')"
proof -
  let ?a = "sample_file ''A.DAT'' 1 None [9]" and ?b = "sample_file ''B.DAT'' 3 None [1, 2]"
  have 1: "?b \<in> set (files \<lparr>files = [?a, ?b]\<rparr>)" by simp
  have 2: "getContent ?b = Inr [1, 2]" by (simp add: sample_file_def)
  have 3: "length [1, 2 :: 8 word] \<noteq> nativeSize ?b" by (simp add: sample_file_def)
  have 4: "\<forall>g\<in>set (files \<lparr>files = [?a, ?b]\<rparr>). \<exists>c. getContent g = Inr c"
    by (simp add: sample_file_def)
  from generate_size_mismatch_fails [OF 1 2 3, of "sample_cmp 0" "sample_cmp 0"] 4
  have "generate (sample_cmp 0) (sample_cmp 0) \<lparr>files = [?a, ?b]\<rparr>
       = Inl (Error ''Length of data and nativeSize field do not match!'')"
    by blast
  with 1 2 3 show ?thesis by blast
qed

subsection \<open>Type codes and extensions\<close>








lemma parse_LEVEL1:
  "parse cmpLZW cmpRLE (record_LEVEL1 1 0 0)
     = Inr \<lparr>files = [\<lparr>file_name = ''LEVEL1.mbg'', file_type = Some ''map/fast-bg'',
                       diskSize = 0, offset = 37, nativeSize = 0, compressed = Some False,
                       getRaw = Inr [], getContent = Inr []\<rparr>]\<rparr>"
  by (simp add: eval_defs)




section \<open>Properties of parse\<close>

lemma readRecord_buffer: "readRecord rb = Inr (e, rb') \<Longrightarrow> buffer rb' = buffer rb"
  by (auto simp: readRecord_def split: if_splits)

lemma chained_append:
  "chained p (fs @ [f]) = (chained p fs \<and> offset f = walk_end p fs + FATENTRY_LEN)"
  by (induction fs arbitrary: p) auto

lemma walk_end_append: "walk_end p (fs @ [f]) = offset f + diskSize f"
  by (induction fs arbitrary: p) auto

lemma walk_end_last:
  "fs \<noteq> [] \<Longrightarrow> walk_end p fs = offset (last fs) + diskSize (last fs)"
  by (induction fs arbitrary: p) auto

lemma chained_nth:
  "chained p fs \<Longrightarrow>
   (fs \<noteq> [] \<longrightarrow> offset (fs ! 0) = p + FATENTRY_LEN)
   \<and> (\<forall>k. Suc k < length fs \<longrightarrow>
         offset (fs ! Suc k) = offset (fs ! k) + diskSize (fs ! k) + FATENTRY_LEN)"
proof (induction fs arbitrary: p)
  case Nil
  then show ?case by simp
next
  case (Cons f fs)
  from Cons.prems
  have oc: "offset f = p + FATENTRY_LEN \<and> chained (offset f + diskSize f) fs"
    unfolding chained.simps .
  note o = oc [THEN conjunct1] and c = oc [THEN conjunct2]
  from Cons.IH [OF c]
  have hd: "fs \<noteq> [] \<longrightarrow> offset (fs ! 0) = offset f + diskSize f + FATENTRY_LEN"
    and tl: "\<forall>k. Suc k < length fs \<longrightarrow>
         offset (fs ! Suc k) = offset (fs ! k) + diskSize (fs ! k) + FATENTRY_LEN"
    by simp_all
  have "offset ((f # fs) ! Suc k) = offset ((f # fs) ! k) + diskSize ((f # fs) ! k) + FATENTRY_LEN"
    if "Suc k < length (f # fs)" for k
  proof (cases k)
    case 0
    with that hd show ?thesis by auto
  next
    case (Suc j)
    with that tl show ?thesis by simp
  qed
  with o show ?case by simp
qed

lemma parse_file_offset: "offset (parse_file cmpLZW cmpRLE c k e) = k"
  by (simp add: parse_file_def Let_def split: prod.splits)

lemma parse_file_diskSize: "diskSize (parse_file cmpLZW cmpRLE c k e) = compressedSize e"
  by (simp add: parse_file_def Let_def split: prod.splits)

text \<open>
  The walk of \<^verbatim>\<open>parse\<close>: every member file is built from the record that lies just
  before its body, the files follow one another through the container from its first
  byte, and unless the ceiling stopped the loop the last body ends the container.
\<close>

lemma parse_loop_walk:
  "parse_loop cmpLZW cmpRLE i rb off fs = Inr res \<Longrightarrow>
   off = pos rb + FATENTRY_LEN \<Longrightarrow>
   pos rb = walk_end 0 fs \<Longrightarrow>
   chained 0 fs \<Longrightarrow>
   \<forall>f\<in>set fs. FATENTRY_LEN \<le> offset f \<and> offset f \<le> length (buffer rb)
      \<and> f = parse_file cmpLZW cmpRLE (buffer rb) (offset f)
            (decode_fatEntry (take FATENTRY_LEN (drop (offset f - FATENTRY_LEN) (buffer rb)))) \<Longrightarrow>
   chained 0 res
   \<and> (\<forall>f\<in>set res. FATENTRY_LEN \<le> offset f \<and> offset f \<le> length (buffer rb)
      \<and> f = parse_file cmpLZW cmpRLE (buffer rb) (offset f)
            (decode_fatEntry (take FATENTRY_LEN (drop (offset f - FATENTRY_LEN) (buffer rb)))))
   \<and> (length res < length fs + (MAX_FILES - i) \<longrightarrow> walk_end 0 res = length (buffer rb))"
proof (induction cmpLZW cmpRLE i rb off fs rule: parse_loop.induct)
  case (1 cmpLZW cmpRLE i rb nextOffset fs)
  show ?case
  proof (cases "i < MAX_FILES")
    case False
    with "1.prems"(1) have "res = fs" by (subst (asm) parse_loop.simps) simp
    with False "1.prems" show ?thesis by simp
  next
    case lt: True
    show ?thesis
    proof (cases "distFromEnd rb = 0")
      case True
      with lt "1.prems"(1) have r: "res = fs" by (subst (asm) parse_loop.simps) simp
      from True have "pos rb = length (buffer rb)" by (simp add: distFromEnd_def)
      with r "1.prems" show ?thesis by simp
    next
      case ne: False
      show ?thesis
      proof (cases "readRecord rb")
        case (Inl e)
        with lt ne "1.prems"(1) show ?thesis
          by (subst (asm) parse_loop.simps) simp
      next
        case (Inr p)
        obtain e rb' where p: "p = (e, rb')" by (cases p)
        from Inr p have rd: "readRecord rb = Inr (e, rb')" by simp
        then have fits: "pos rb + FATENTRY_LEN \<le> length (buffer rb)"
          by (auto simp: readRecord_def split: if_splits)
        from rd readRecord_fits [OF fits]
        have e: "e = decode_fatEntry (take FATENTRY_LEN (drop (pos rb) (buffer rb)))"
          and rb': "rb' = rb\<lparr>pos := pos rb + FATENTRY_LEN\<rparr>"
          by simp_all
        let ?f = "parse_file cmpLZW cmpRLE (buffer rb) nextOffset e"
        let ?rb'' = "seekRel rb' (compressedSize e)"
        let ?off' = "nextOffset + compressedSize e + FATENTRY_LEN"
        note fo = parse_file_offset and fd = parse_file_diskSize
        from lt ne rd "1.prems"(1)
        have run: "parse_loop cmpLZW cmpRLE (i + 1) ?rb'' ?off' (fs @ [?f]) = Inr res"
          by (subst (asm) parse_loop.simps) simp
        have buf: "buffer ?rb'' = buffer rb" by (simp add: rb' seekRel_def)
        have a: "?off' = pos ?rb'' + FATENTRY_LEN"
          using "1.prems"(2) by (simp add: rb' seekRel_def)
        have b: "pos ?rb'' = walk_end 0 (fs @ [?f])"
          using "1.prems"(2) by (simp add: walk_end_append fo fd rb' seekRel_def)
        have c: "chained 0 (fs @ [?f])"
          using "1.prems"(2,3,4) by (simp add: chained_append fo)
        have new: "FATENTRY_LEN \<le> offset ?f \<and> offset ?f \<le> length (buffer rb)
            \<and> ?f = parse_file cmpLZW cmpRLE (buffer rb) (offset ?f)
                (decode_fatEntry (take FATENTRY_LEN (drop (offset ?f - FATENTRY_LEN) (buffer rb))))"
          using "1.prems"(2) fits e by (simp add: fo)
        have d: "\<forall>f\<in>set (fs @ [?f]). FATENTRY_LEN \<le> offset f \<and> offset f \<le> length (buffer ?rb'')
            \<and> f = parse_file cmpLZW cmpRLE (buffer ?rb'') (offset f)
                (decode_fatEntry (take FATENTRY_LEN (drop (offset f - FATENTRY_LEN) (buffer ?rb''))))"
          using "1.prems"(5) new buf by (simp only: set_append) auto
        from "1.IH" [OF lt ne Inr p [symmetric] run a b c d] lt buf
        show ?thesis by simp
      qed
    qed
  qed
qed

text \<open>What one turn of the loop does with the decompressed-size field of its record.\<close>

lemma parse_file_by_field:
  "getRaw (parse_file cmpLZW cmpRLE c k e) = getU8 c k (compressedSize e)
   \<and> (compressed (parse_file cmpLZW cmpRLE c k e) = Some True) = (decompressedSize e \<noteq> 0)
   \<and> (decompressedSize e \<noteq> 0 \<longrightarrow>
        nativeSize (parse_file cmpLZW cmpRLE c k e) = decompressedSize e
        \<and> getContent (parse_file cmpLZW cmpRLE c k e)
            = (case getU8 c k (compressedSize e) of
                 Inl err \<Rightarrow> Inl err
               | Inr raw \<Rightarrow> Inr (take (decompressedSize e) (reveal cmpRLE (reveal cmpLZW raw)))))"
  by (simp add: parse_file_def Let_def split: prod.splits)

text \<open>
  C5. Take the member file at any index \<open>k\<close> of an archive returned by \<^verbatim>\<open>parse\<close>, and
  the record \<open>e\<close> stored in the 37 bytes before the file's offset. The first file belongs
  to the record at the start of the container, the next file to the record right after
  this file's body, and without the ceiling the last body ends the container: the files
  are the records of the container, in order. The file is marked compressed exactly when
  the decompressed-size field of \<open>e\<close> is not zero. In that case \<^verbatim>\<open>nativeSize\<close> is that
  field, and \<^verbatim>\<open>getContent()\<close> is the first \<^verbatim>\<open>nativeSize\<close> bytes of the run-length
  decoding of the adaptive-code decoding of \<^verbatim>\<open>getRaw()\<close> (it raises what \<^verbatim>\<open>getRaw()\<close>
  raises); when the decoded bytes are one longer than \<^verbatim>\<open>nativeSize\<close>, the result is the
  decoded bytes without the last one, exactly \<^verbatim>\<open>nativeSize\<close> bytes.
\<close>

theorem parse_getContent_truncates:
  "parse cmpLZW cmpRLE content = Inr archive \<Longrightarrow> k < length (files archive) \<Longrightarrow>
   f = files archive ! k \<Longrightarrow>
   e = decode_fatEntry (take FATENTRY_LEN (drop (offset f - FATENTRY_LEN) content)) \<Longrightarrow>
   FATENTRY_LEN \<le> offset f \<and> offset f \<le> length content
   \<and> (k = 0 \<longrightarrow> offset f = FATENTRY_LEN)
   \<and> (Suc k < length (files archive) \<longrightarrow>
        offset (files archive ! Suc k) = offset f + compressedSize e + FATENTRY_LEN)
   \<and> (length (files archive) < MAX_FILES \<longrightarrow>
        offset (last (files archive)) + diskSize (last (files archive)) = length content)
   \<and> getRaw f = getU8 content (offset f) (compressedSize e)
   \<and> (compressed f = Some True) = (decompressedSize e \<noteq> 0)
   \<and> (decompressedSize e \<noteq> 0 \<longrightarrow>
        nativeSize f = decompressedSize e
        \<and> getContent f
            = (case getRaw f of
                 Inl err \<Rightarrow> Inl err
               | Inr raw \<Rightarrow> Inr (take (nativeSize f) (reveal cmpRLE (reveal cmpLZW raw))))
        \<and> (\<forall>raw. getRaw f = Inr raw
               \<and> length (reveal cmpRLE (reveal cmpLZW raw)) = nativeSize f + 1
             \<longrightarrow> getContent f = Inr (butlast (reveal cmpRLE (reveal cmpLZW raw)))
               \<and> length (butlast (reveal cmpRLE (reveal cmpLZW raw))) = nativeSize f))"
proof -
  assume p: "parse cmpLZW cmpRLE content = Inr archive" and k: "k < length (files archive)"
    and f: "f = files archive ! k"
    and e: "e = decode_fatEntry (take FATENTRY_LEN (drop (offset f - FATENTRY_LEN) content))"
  from p obtain res where res: "parse_loop cmpLZW cmpRLE 0 \<lparr>buffer = content, pos = 0\<rparr>
      FATENTRY_LEN [] = Inr res" and a: "archive = \<lparr>files = res\<rparr>"
    by (cases "parse_loop cmpLZW cmpRLE 0 \<lparr>buffer = content, pos = 0\<rparr> FATENTRY_LEN []")
       (auto simp: parse_def)
  from parse_loop_walk [OF res]
  have ch: "chained 0 res"
    and each: "\<forall>g\<in>set res. FATENTRY_LEN \<le> offset g \<and> offset g \<le> length content
      \<and> g = parse_file cmpLZW cmpRLE content (offset g)
            (decode_fatEntry (take FATENTRY_LEN (drop (offset g - FATENTRY_LEN) content)))"
    and cover: "length res < MAX_FILES \<longrightarrow> walk_end 0 res = length content"
    by simp_all
  from k a have kres: "k < length res" and ne: "res \<noteq> []" by auto
  from f a have fres: "f = res ! k" by simp
  with kres have "f \<in> set res" by simp
  with each e have range: "FATENTRY_LEN \<le> offset f \<and> offset f \<le> length content"
    and built: "f = parse_file cmpLZW cmpRLE content (offset f) e"
    by simp_all
  from built parse_file_diskSize [of cmpLZW cmpRLE content "offset f" e]
  have ds: "diskSize f = compressedSize e" by simp
  from chained_nth [OF ch] ne kres fres ds
  have first: "k = 0 \<longrightarrow> offset f = FATENTRY_LEN"
    and nxt: "Suc k < length res \<longrightarrow> offset (res ! Suc k) = offset f + compressedSize e + FATENTRY_LEN"
    by auto
  from cover ne have last: "length res < MAX_FILES \<longrightarrow>
      offset (last res) + diskSize (last res) = length content"
    by (simp add: walk_end_last)
  note field = parse_file_by_field [of cmpLZW cmpRLE content "offset f" e]
  from field built have raw: "getRaw f = getU8 content (offset f) (compressedSize e)"
    and flag: "(compressed f = Some True) = (decompressedSize e \<noteq> 0)"
    by simp_all
  have comp: "nativeSize f = decompressedSize e
        \<and> getContent f
            = (case getRaw f of
                 Inl err \<Rightarrow> Inl err
               | Inr raw \<Rightarrow> Inr (take (nativeSize f) (reveal cmpRLE (reveal cmpLZW raw))))
        \<and> (\<forall>raw. getRaw f = Inr raw
               \<and> length (reveal cmpRLE (reveal cmpLZW raw)) = nativeSize f + 1
             \<longrightarrow> getContent f = Inr (butlast (reveal cmpRLE (reveal cmpLZW raw)))
               \<and> length (butlast (reveal cmpRLE (reveal cmpLZW raw))) = nativeSize f)"
    if nz: "decompressedSize e \<noteq> 0"
  proof -
    from field nz have "nativeSize (parse_file cmpLZW cmpRLE content (offset f) e)
        = decompressedSize e"
      and "getContent (parse_file cmpLZW cmpRLE content (offset f) e)
            = (case getU8 content (offset f) (compressedSize e) of
                 Inl err \<Rightarrow> Inl err
               | Inr raw \<Rightarrow> Inr (take (decompressedSize e) (reveal cmpRLE (reveal cmpLZW raw))))"
      by simp_all
    with built have n: "nativeSize f = decompressedSize e"
      and g0: "getContent f
            = (case getU8 content (offset f) (compressedSize e) of
                 Inl err \<Rightarrow> Inl err
               | Inr raw \<Rightarrow> Inr (take (decompressedSize e) (reveal cmpRLE (reveal cmpLZW raw))))"
      by simp_all
    from g0 have g: "getContent f
            = (case getRaw f of
                 Inl err \<Rightarrow> Inl err
               | Inr raw \<Rightarrow> Inr (take (nativeSize f) (reveal cmpRLE (reveal cmpLZW raw))))"
      by (simp only: n raw)
    have "getContent f = Inr (butlast (reveal cmpRLE (reveal cmpLZW r)))
               \<and> length (butlast (reveal cmpRLE (reveal cmpLZW r))) = nativeSize f"
      if h: "getRaw f = Inr r \<and> length (reveal cmpRLE (reveal cmpLZW r)) = nativeSize f + 1"
      for r
    proof -
      from h g have "getContent f = Inr (take (nativeSize f) (reveal cmpRLE (reveal cmpLZW r)))"
        by simp
      moreover from h have "take (nativeSize f) (reveal cmpRLE (reveal cmpLZW r))
          = butlast (reveal cmpRLE (reveal cmpLZW r))"
        by (simp add: butlast_conv_take)
      ultimately show ?thesis using h by simp
    qed
    with n g show ?thesis by blast
  qed
  from nxt a have nxt': "Suc k < length (files archive) \<longrightarrow>
        offset (files archive ! Suc k) = offset f + compressedSize e + FATENTRY_LEN"
    by simp
  from last a have last': "length (files archive) < MAX_FILES \<longrightarrow>
        offset (last (files archive)) + diskSize (last (files archive)) = length content"
    by simp
  show ?thesis
    by (intro conjI; (rule range [THEN conjunct1] range [THEN conjunct2] first nxt' last' raw flag)?)
       (rule impI, erule comp)
qed

text \<open>
  The theorem at a container of two records: the first declares 3 stored bytes and a
  decompressed size of 2, and the transforms used here give back the 3 bytes, one more
  than the declared size.
\<close>

lemma parse_two_records:
  "parse (sample_cmp 0) (sample_cmp 0)
     (record_LEVEL1 1 3 2 @ [7, 8, 9] @ record_LEVEL1 1 0 0)
     = Inr \<lparr>files =
         [\<lparr>file_name = ''LEVEL1.mbg'', file_type = Some ''map/fast-bg'',
           diskSize = 3, offset = 37, nativeSize = 2, compressed = Some True,
           getRaw = Inr [7, 8, 9], getContent = Inr [7, 8]\<rparr>,
          \<lparr>file_name = ''LEVEL1.mbg'', file_type = Some ''map/fast-bg'',
           diskSize = 0, offset = 77, nativeSize = 0, compressed = Some False,
           getRaw = Inr [], getContent = Inr []\<rparr>]\<rparr>"
  by (simp add: eval_defs sample_cmp_def)

theorem parse_getContent_truncates_witness:
  "parse (sample_cmp 0) (sample_cmp 0)
     (record_LEVEL1 1 3 2 @ [7, 8, 9] @ record_LEVEL1 1 0 0)
     = Inr \<lparr>files =
         [\<lparr>file_name = ''LEVEL1.mbg'', file_type = Some ''map/fast-bg'',
           diskSize = 3, offset = 37, nativeSize = 2, compressed = Some True,
           getRaw = Inr [7, 8, 9], getContent = Inr [7, 8]\<rparr>,
          \<lparr>file_name = ''LEVEL1.mbg'', file_type = Some ''map/fast-bg'',
           diskSize = 0, offset = 77, nativeSize = 0, compressed = Some False,
           getRaw = Inr [], getContent = Inr []\<rparr>]\<rparr>
   \<and> decompressedSize (decode_fatEntry (take FATENTRY_LEN (drop (37 - FATENTRY_LEN)
         (record_LEVEL1 1 3 2 @ [7, 8, 9] @ record_LEVEL1 1 0 0)))) = 2
   \<and> reveal (sample_cmp 0) (reveal (sample_cmp 0) [7, 8, 9]) = [7, 8, 9]
   \<and> getContent \<lparr>file_name = ''LEVEL1.mbg'', file_type = Some ''map/fast-bg'',
           diskSize = 3, offset = 37, nativeSize = 2, compressed = Some True,
           getRaw = Inr [7, 8, 9], getContent = Inr [7, 8]\<rparr> = Inr (butlast [7, 8, 9])
   \<and> (77 :: nat) = 37 + 3 + FATENTRY_LEN
   \<and> (77 :: nat) + 0 = length (record_LEVEL1 1 3 2 @ [7, 8, 9] @ record_LEVEL1 1 0 0)"
proof -
  let ?c = "record_LEVEL1 1 3 2 @ [7, 8, 9] @ record_LEVEL1 1 0 0"
  let ?f = "\<lparr>file_name = ''LEVEL1.mbg'', file_type = Some ''map/fast-bg'',
           diskSize = 3, offset = 37, nativeSize = 2, compressed = Some True,
           getRaw = Inr [7, 8, 9 :: 8 word], getContent = Inr [7, 8 :: 8 word]\<rparr>"
  let ?g = "\<lparr>file_name = ''LEVEL1.mbg'', file_type = Some ''map/fast-bg'',
           diskSize = 0, offset = 77, nativeSize = 0, compressed = Some False,
           getRaw = Inr ([] :: bytes), getContent = Inr ([] :: bytes)\<rparr>"
  let ?e = "decode_fatEntry (take FATENTRY_LEN (drop (offset ?f - FATENTRY_LEN) ?c))"
  let ?out = "reveal (sample_cmp 0) (reveal (sample_cmp 0) [7, 8, 9])"
  have k: "0 < length (files \<lparr>files = [?f, ?g]\<rparr>)" by simp
  have f: "?f = files \<lparr>files = [?f, ?g]\<rparr> ! 0" by simp
  note t = parse_getContent_truncates [OF parse_two_records k f refl]
  have cs: "compressedSize ?e = 3" and nz: "decompressedSize ?e = 2"
    by (simp_all add: record_LEVEL1_def decode_fatEntry_def FATENTRY_LEN_def u16le_def)
  have out: "?out = [7, 8, 9]"
    by (simp add: sample_cmp_def)
  have len: "(77 :: nat) + 0 = length ?c" by (simp add: record_LEVEL1_def)
  have sum: "(77 :: nat) = 37 + 3 + FATENTRY_LEN" by (simp add: FATENTRY_LEN_def)
  from nz have nz': "decompressedSize ?e \<noteq> 0" by simp
  note comp = t [THEN conjunct2, THEN conjunct2, THEN conjunct2, THEN conjunct2,
      THEN conjunct2, THEN conjunct2, THEN conjunct2, THEN mp, OF nz']
  note pad = comp [THEN conjunct2, THEN conjunct2, THEN spec, of "[7, 8, 9]", THEN mp]
  have h: "getRaw ?f = Inr [7, 8, 9] \<and> length ?out = nativeSize ?f + 1"
    using out by simp
  from pad [OF h] have "getContent ?f = Inr (butlast ?out)" by (rule conjunct1)
  then have g: "getContent ?f = Inr (butlast [7, 8, 9])" by (simp only: out)
  have nzs: "decompressedSize (decode_fatEntry (take FATENTRY_LEN (drop (37 - FATENTRY_LEN) ?c)))
      = 2"
    by (simp add: record_LEVEL1_def decode_fatEntry_def FATENTRY_LEN_def u16le_def)
  from parse_two_records nzs out g sum len show ?thesis
    by (intro conjI)
qed

subsection \<open>The ceiling of 1024 files\<close>

lemma parse_loop_length:
  "parse_loop cmpLZW cmpRLE i rb off fs = Inr res \<Longrightarrow>
   length res \<le> length fs + (MAX_FILES - i)"
proof (induction cmpLZW cmpRLE i rb off fs rule: parse_loop.induct)
  case (1 cmpLZW cmpRLE i rb nextOffset fs)
  show ?case
  proof (cases "i < MAX_FILES \<and> distFromEnd rb \<noteq> 0")
    case False
    with "1.prems" show ?thesis
      by (subst (asm) parse_loop.simps) (auto split: if_splits)
  next
    case True
    then have lt: "i < MAX_FILES" and ne: "distFromEnd rb \<noteq> 0" by simp_all
    show ?thesis
    proof (cases "readRecord rb")
      case (Inl e)
      with True "1.prems" show ?thesis
        by (subst (asm) parse_loop.simps) simp
    next
      case (Inr p)
      obtain e rb' where p: "p = (e, rb')" by (cases p)
      let ?fs' = "fs @ [parse_file cmpLZW cmpRLE (buffer rb) nextOffset e]"
      from True Inr p "1.prems"(1)
      have run: "parse_loop cmpLZW cmpRLE (i + 1) (seekRel rb' (compressedSize e))
                   (nextOffset + compressedSize e + FATENTRY_LEN) ?fs' = Inr res"
        by (subst (asm) parse_loop.simps) simp
      have "length res \<le> length ?fs' + (MAX_FILES - (i + 1))"
        by (rule "1.IH" [OF lt ne Inr p [symmetric] run])
      with lt show ?thesis by simp
    qed
  qed
qed

lemma parse_follows_identify:
  "identify_loop i rb = Inr (Too_many_files, v) \<Longrightarrow>
   \<exists>res. parse_loop cmpLZW cmpRLE i rb off fs = Inr res
        \<and> length res = length fs + (MAX_FILES - i)"
proof (induction i rb arbitrary: off fs rule: identify_loop.induct)
  case (1 i rb)
  show ?case
  proof (cases "i < MAX_FILES")
    case False
    then show ?thesis by (subst parse_loop.simps) simp
  next
    case lt: True
    from lt "1.prems" have ne: "distFromEnd rb \<noteq> 0"
      and ge: "\<not> distFromEnd rb < int FATENTRY_LEN"
      by (subst (asm) identify_loop.simps, auto simp: Let_def split: if_splits)+
    from ge have "pos rb + FATENTRY_LEN \<le> length (buffer rb)"
      by (simp add: distFromEnd_def)
    then obtain e rb' where rd: "readRecord rb = Inr (e, rb')"
      by (simp add: readRecord_def)
    from lt ne ge rd "1.prems" have ok: "\<not> list_ex invalid_char (name e)"
      and fit: "\<not> distFromEnd rb' < int (compressedSize e)"
      by (subst (asm) identify_loop.simps, auto simp: Let_def split: if_splits)+
    from lt ne ge rd ok fit "1.prems"
    have next_run: "identify_loop (i + 1) (seekRel rb' (compressedSize e)) = Inr (Too_many_files, v)"
      by (subst (asm) identify_loop.simps) (simp add: Let_def)
    let ?fs' = "fs @ [parse_file cmpLZW cmpRLE (buffer rb) off e]"
    from "1.IH" [OF lt refl ne ge rd refl ok fit next_run,
        of "off + compressedSize e + FATENTRY_LEN" ?fs']
    obtain res where res: "parse_loop cmpLZW cmpRLE (i + 1) (seekRel rb' (compressedSize e))
        (off + compressedSize e + FATENTRY_LEN) ?fs' = Inr res"
      and len: "length res = length ?fs' + (MAX_FILES - (i + 1))"
      by blast
    have "parse_loop cmpLZW cmpRLE i rb off fs = Inr res"
      using lt ne rd res by (subst parse_loop.simps) simp
    with len lt show ?thesis by simp
  qed
qed

lemma listing_parse_file:
  "listing (parse_file cmpLZW cmpRLE c off e) = listing (parse_file cmpLZW cmpRLE c' off e)"
  by (simp add: listing_def parse_file_def Let_def split: prod.splits)

lemma readRecord_append:
  "readRecord rb = Inr (e, rb') \<Longrightarrow>
   readRecord (rb\<lparr>buffer := buffer rb @ x\<rparr>) = Inr (e, rb'\<lparr>buffer := buffer rb' @ x\<rparr>)"
  by (auto simp: readRecord_def split: if_splits)

lemma parse_loop_ignores_rest:
  "parse_loop cmpLZW cmpRLE i rb off fs = Inr res \<Longrightarrow>
   length res = length fs + (MAX_FILES - i) \<Longrightarrow>
   map listing fs' = map listing fs \<Longrightarrow>
   \<exists>res'. parse_loop cmpLZW cmpRLE i (rb\<lparr>buffer := buffer rb @ x\<rparr>) off fs' = Inr res'
          \<and> map listing res' = map listing res"
proof (induction cmpLZW cmpRLE i rb off fs arbitrary: fs' rule: parse_loop.induct)
  case (1 cmpLZW cmpRLE i rb nextOffset fs)
  show ?case
  proof (cases "i < MAX_FILES")
    case False
    with "1.prems"(1) have "res = fs" by (subst (asm) parse_loop.simps) simp
    with False "1.prems"(3) show ?thesis by (subst parse_loop.simps) simp
  next
    case lt: True
    have ne: "distFromEnd rb \<noteq> 0"
    proof
      assume "distFromEnd rb = 0"
      with lt "1.prems"(1) have "res = fs" by (subst (asm) parse_loop.simps) simp
      with lt "1.prems"(2) show False by simp
    qed
    show ?thesis
    proof (cases "readRecord rb")
      case (Inl e)
      with lt ne "1.prems"(1) show ?thesis
        by (subst (asm) parse_loop.simps) simp
    next
      case (Inr p)
      obtain e rb' where p: "p = (e, rb')" by (cases p)
      let ?f = "parse_file cmpLZW cmpRLE (buffer rb) nextOffset e"
      let ?g = "parse_file cmpLZW cmpRLE (buffer rb @ x) nextOffset e"
      let ?rb'' = "seekRel rb' (compressedSize e)"
      let ?off' = "nextOffset + compressedSize e + FATENTRY_LEN"
      from lt ne Inr p "1.prems"(1)
      have run: "parse_loop cmpLZW cmpRLE (i + 1) ?rb'' ?off' (fs @ [?f]) = Inr res"
        by (subst (asm) parse_loop.simps) simp
      from lt "1.prems"(2)
      have len: "length res = length (fs @ [?f]) + (MAX_FILES - (i + 1))" by simp
      have same: "map listing (fs' @ [?g]) = map listing (fs @ [?f])"
        using "1.prems"(3) listing_parse_file [of cmpLZW cmpRLE "buffer rb @ x" nextOffset e]
        by simp
      from "1.IH" [OF lt ne Inr p [symmetric] run len same]
      obtain res' where r: "parse_loop cmpLZW cmpRLE (i + 1) (?rb''\<lparr>buffer := buffer ?rb'' @ x\<rparr>)
          ?off' (fs' @ [?g]) = Inr res'"
        and m: "map listing res' = map listing res"
        by blast
      from Inr p have rd: "readRecord rb = Inr (e, rb')" by simp
      have buf: "buffer rb' = buffer rb"
        using rd by (rule readRecord_buffer)
      have rd': "readRecord (rb\<lparr>buffer := buffer rb @ x\<rparr>)
          = Inr (e, rb'\<lparr>buffer := buffer rb' @ x\<rparr>)"
        using rd by (rule readRecord_append)
      from rd have "pos rb + FATENTRY_LEN \<le> length (buffer rb)"
        by (auto simp: readRecord_def split: if_splits)
      then have ne': "distFromEnd (rb\<lparr>buffer := buffer rb @ x\<rparr>) \<noteq> 0"
        by (simp add: distFromEnd_def FATENTRY_LEN_def)
      have seek: "seekRel (rb'\<lparr>buffer := buffer rb' @ x\<rparr>) (compressedSize e)
          = ?rb''\<lparr>buffer := buffer ?rb'' @ x\<rparr>"
        by (simp add: seekRel_def)
      have "parse_loop cmpLZW cmpRLE i (rb\<lparr>buffer := buffer rb @ x\<rparr>) nextOffset fs' = Inr res'"
        using lt ne' rd' r seek by (subst parse_loop.simps) simp
      with m show ?thesis by blast
    qed
  qed
qed

lemma drop_concat_replicate:
  "drop (i * length r) (concat (replicate n r)) = concat (replicate (n - i) r)"
proof (induction i arbitrary: n)
  case 0
  then show ?case by simp
next
  case (Suc i)
  show ?case
  proof (cases n)
    case 0
    then show ?thesis by simp
  next
    case (Suc m)
    have "drop (Suc i * length r) (concat (replicate n r))
        = drop (i * length r) (drop (length r) (r @ concat (replicate m r)))"
      using Suc by (simp add: add.commute)
    also have "\<dots> = concat (replicate (m - i) r)" using Suc.IH [of m] by simp
    finally show ?thesis using Suc by simp
  qed
qed

lemma record_in_replicated:
  "i < n \<Longrightarrow> take (length r) (drop (i * length r) (concat (replicate n r))) = r"
proof -
  assume "i < n"
  then obtain m where "n - i = Suc m" by (cases "n - i") auto
  then show ?thesis by (simp add: drop_concat_replicate)
qed

lemma identify_loop_replicated:
  assumes len: "length r = FATENTRY_LEN"
    and ok: "\<not> list_ex invalid_char (name (decode_fatEntry r))"
    and cs: "compressedSize (decode_fatEntry r) = 0"
    and n: "MAX_FILES \<le> n"
  shows "i \<le> MAX_FILES \<Longrightarrow>
    identify_loop i \<lparr>buffer = concat (replicate n r), pos = i * FATENTRY_LEN\<rparr>
      = Inr (Too_many_files, False)"
proof (induction "MAX_FILES - i" arbitrary: i)
  case 0
  then show ?case by (subst identify_loop.simps) simp
next
  case (Suc d)
  then have lt: "i < MAX_FILES" by simp
  with n have "i < n" by simp
  let ?rb = "\<lparr>buffer = concat (replicate n r), pos = i * FATENTRY_LEN\<rparr>"
  have total: "length (concat (replicate n r)) = n * FATENTRY_LEN"
    by (simp add: length_concat len sum_list_replicate)
  from \<open>i < n\<close> have "Suc i \<le> n" by simp
  then have "Suc i * FATENTRY_LEN \<le> n * FATENTRY_LEN"
    by (rule mult_le_mono1)
  then have fits: "pos ?rb + FATENTRY_LEN \<le> length (buffer ?rb)"
    using total by simp
  have rd: "readRecord ?rb = Inr (decode_fatEntry r, ?rb\<lparr>pos := pos ?rb + FATENTRY_LEN\<rparr>)"
    using readRecord_fits [OF fits] record_in_replicated [OF \<open>i < n\<close>, of r] len by simp
  have left: "distFromEnd ?rb \<noteq> 0" "\<not> distFromEnd ?rb < int FATENTRY_LEN"
    using fits by (simp_all add: distFromEnd_def FATENTRY_LEN_def)
  from fits have "i * FATENTRY_LEN + FATENTRY_LEN \<le> length (concat (replicate n r))"
    by simp
  then have "int (i * FATENTRY_LEN + FATENTRY_LEN) \<le> int (length (concat (replicate n r)))"
    by (simp only: of_nat_le_iff)
  then have after: "\<not> distFromEnd (?rb\<lparr>pos := pos ?rb + FATENTRY_LEN\<rparr>) < int 0"
    by (simp add: distFromEnd_def)
  have step: "identify_loop i ?rb
      = identify_loop (i + 1) \<lparr>buffer = concat (replicate n r), pos = (i + 1) * FATENTRY_LEN\<rparr>"
    using lt rd left ok cs after
    by (subst identify_loop.simps) (simp add: Let_def seekRel_def add.commute)
  from Suc.hyps(2) lt have "d = MAX_FILES - (i + 1)" "i + 1 \<le> MAX_FILES" by simp_all
  from Suc.hyps(1) [OF this] step show ?case by simp
qed

lemma record_LEVEL1_entry:
  "decode_fatEntry (record_LEVEL1 1 0 0)
     = \<lparr>typeCode = 1, compressedSize = 0, name = ''LEVEL1'', decompressedSize = 0\<rparr>"
  by (simp add: record_LEVEL1_def decode_fatEntry_def u16le_def reqTerm_def char_of_def
      bit_Suc_0_iff)

lemma identify_too_many:
  "identify_run (concat (replicate 1025 (record_LEVEL1 1 0 0))) = Inr (Too_many_files, False)"
proof -
  have "identify_loop 0 \<lparr>buffer = concat (replicate 1025 (record_LEVEL1 1 0 0)),
          pos = 0 * FATENTRY_LEN\<rparr> = Inr (Too_many_files, False)"
    by (rule identify_loop_replicated)
       (simp_all add: record_LEVEL1_entry invalid_char_def MAX_FILES_def,
        simp add: record_LEVEL1_def FATENTRY_LEN_def)
  then show ?thesis by (simp add: identify_run_def)
qed

text \<open>
  C9. Every archive returned by \<^verbatim>\<open>parse\<close> holds at most 1024 member files. When the
  container holds 1024 well-formed records or more (the walk of \<^verbatim>\<open>identify\<close> reaches its
  ceiling), \<^verbatim>\<open>parse\<close> raises nothing and returns exactly 1024 files. Whatever bytes follow
  a container from which 1024 files were read are left out: the files listed are the same
  and no error is raised.
\<close>

theorem parse_at_most_MAX_FILES:
  "(\<forall>archive. parse cmpLZW cmpRLE content = Inr archive
       \<longrightarrow> length (files archive) \<le> 1024)
   \<and> (identify_run content = Inr (Too_many_files, False)
       \<longrightarrow> (\<exists>archive. parse cmpLZW cmpRLE content = Inr archive
              \<and> length (files archive) = 1024))
   \<and> (\<forall>archive extra. parse cmpLZW cmpRLE content = Inr archive
          \<and> length (files archive) = 1024
       \<longrightarrow> (\<exists>archive'. parse cmpLZW cmpRLE (content @ extra) = Inr archive'
              \<and> map listing (files archive') = map listing (files archive)))"
proof (intro conjI allI impI)
  fix archive
  assume "parse cmpLZW cmpRLE content = Inr archive"
  then obtain res where "parse_loop cmpLZW cmpRLE 0 \<lparr>buffer = content, pos = 0\<rparr>
      FATENTRY_LEN [] = Inr res" and "archive = \<lparr>files = res\<rparr>"
    by (cases "parse_loop cmpLZW cmpRLE 0 \<lparr>buffer = content, pos = 0\<rparr> FATENTRY_LEN []")
       (auto simp: parse_def)
  with parse_loop_length [of cmpLZW cmpRLE 0 _ FATENTRY_LEN "[]" res]
  show "length (files archive) \<le> 1024" by (simp add: MAX_FILES_def)
next
  assume "identify_run content = Inr (Too_many_files, False)"
  then have "identify_loop 0 \<lparr>buffer = content, pos = 0\<rparr> = Inr (Too_many_files, False)"
    by (simp add: identify_run_def)
  from parse_follows_identify [OF this, of cmpLZW cmpRLE FATENTRY_LEN "[]"]
  show "\<exists>archive. parse cmpLZW cmpRLE content = Inr archive \<and> length (files archive) = 1024"
    by (auto simp: parse_def MAX_FILES_def)
next
  fix archive extra
  assume h: "parse cmpLZW cmpRLE content = Inr archive \<and> length (files archive) = 1024"
  then obtain res where res: "parse_loop cmpLZW cmpRLE 0 \<lparr>buffer = content, pos = 0\<rparr>
      FATENTRY_LEN [] = Inr res" and a: "archive = \<lparr>files = res\<rparr>"
    by (cases "parse_loop cmpLZW cmpRLE 0 \<lparr>buffer = content, pos = 0\<rparr> FATENTRY_LEN []")
       (auto simp: parse_def)
  from h a have len: "length res = length ([] :: File list) + (MAX_FILES - 0)"
    by (simp add: MAX_FILES_def)
  from parse_loop_ignores_rest [OF res len, of "[]" extra]
  obtain res' where "parse_loop cmpLZW cmpRLE 0 \<lparr>buffer = content @ extra, pos = 0\<rparr>
      FATENTRY_LEN [] = Inr res'" and "map listing res' = map listing res"
    by auto
  with a show "\<exists>archive'. parse cmpLZW cmpRLE (content @ extra) = Inr archive'
              \<and> map listing (files archive') = map listing (files archive)"
    by (simp add: parse_def)
qed

text \<open>
  The theorem at a container of one record, and at a container of 1025 copies of a record
  with an empty body, alone and followed by one more record.
\<close>

theorem parse_at_most_MAX_FILES_witness:
  "parse (sample_cmp 1) (sample_cmp 0) (record_LEVEL1 1 0 0)
     = Inr \<lparr>files = [\<lparr>file_name = ''LEVEL1.mbg'', file_type = Some ''map/fast-bg'',
                       diskSize = 0, offset = 37, nativeSize = 0, compressed = Some False,
                       getRaw = Inr [], getContent = Inr []\<rparr>]\<rparr>
   \<and> length [\<lparr>file_name = ''LEVEL1.mbg'', file_type = Some ''map/fast-bg'',
                       diskSize = 0, offset = 37, nativeSize = 0, compressed = Some False,
                       getRaw = Inr ([] :: bytes), getContent = Inr ([] :: bytes)\<rparr>] \<le> (1024 :: nat)
   \<and> identify_run (concat (replicate 1025 (record_LEVEL1 1 0 0))) = Inr (Too_many_files, False)
   \<and> (\<exists>archive. parse (sample_cmp 1) (sample_cmp 0)
                   (concat (replicate 1025 (record_LEVEL1 1 0 0))) = Inr archive
               \<and> length (files archive) = 1024)
   \<and> (\<exists>archive archive'.
          parse (sample_cmp 1) (sample_cmp 0)
            (concat (replicate 1025 (record_LEVEL1 1 0 0))) = Inr archive
        \<and> length (files archive) = 1024
        \<and> parse (sample_cmp 1) (sample_cmp 0)
            (concat (replicate 1025 (record_LEVEL1 1 0 0)) @ record_spaced) = Inr archive'
        \<and> map listing (files archive') = map listing (files archive))"
proof -
  note t = parse_at_most_MAX_FILES [of "sample_cmp 1" "sample_cmp 0"]
  let ?big = "concat (replicate 1025 (record_LEVEL1 1 0 0))"
  have small: "length (files \<lparr>files = [\<lparr>file_name = ''LEVEL1.mbg'', file_type = Some ''map/fast-bg'',
                       diskSize = 0, offset = 37, nativeSize = 0, compressed = Some False,
                       getRaw = Inr ([] :: bytes), getContent = Inr ([] :: bytes)\<rparr>]\<rparr>) \<le> 1024"
    using t [of "record_LEVEL1 1 0 0", THEN conjunct1, rule_format, OF parse_LEVEL1] .
  have big: "\<exists>archive. parse (sample_cmp 1) (sample_cmp 0) ?big = Inr archive
               \<and> length (files archive) = 1024"
    using t [of ?big, THEN conjunct2, THEN conjunct1, rule_format, OF identify_too_many] .
  then obtain archive where a: "parse (sample_cmp 1) (sample_cmp 0) ?big = Inr archive
               \<and> length (files archive) = 1024" ..
  from t [of ?big, THEN conjunct2, THEN conjunct2, rule_format, OF a, of record_spaced]
  obtain archive' where a': "parse (sample_cmp 1) (sample_cmp 0) (?big @ record_spaced)
      = Inr archive' \<and> map listing (files archive') = map listing (files archive)" ..
  from a a' have more: "\<exists>archive archive'.
          parse (sample_cmp 1) (sample_cmp 0) ?big = Inr archive
        \<and> length (files archive) = 1024
        \<and> parse (sample_cmp 1) (sample_cmp 0) (?big @ record_spaced) = Inr archive'
        \<and> map listing (files archive') = map listing (files archive)"
    by blast
  from small big more parse_LEVEL1 [of "sample_cmp 1" "sample_cmp 0"] identify_too_many
  show ?thesis by simp
qed

end
